theory Spec2Isabelle
  imports Main "HOL-Library.AList"
begin

section \<open>Python strings\<close>

text \<open>
  Strings are lists of characters, the code points below 256. \<open>isspace\<close> is the
  whitespace test that \<open>str.split()\<close> and the regular-expression class \<open>\s\<close> use on
  them: tab, line feed, vertical tab, form feed, carriage return, the four separators
  \<open>0x1c\<close>--\<open>0x1f\<close>, the space, the next-line character \<open>0x85\<close> and the no-break space
  \<open>0xa0\<close>.
\<close>

definition isspace :: "char \<Rightarrow> bool" where
  "isspace c =
     (let n = (of_char c :: nat)
      in (9 \<le> n \<and> n \<le> 13) \<or> (28 \<le> n \<and> n \<le> 32) \<or> n = 133 \<or> n = 160)"

text \<open>\<open>needle in haystack\<close> on strings.\<close>

fun contains :: "string \<Rightarrow> string \<Rightarrow> bool" where
  "contains needle [] = (needle = [])"
| "contains needle (c # cs) = (take (length needle) (c # cs) = needle \<or> contains needle cs)"

text \<open>
  \<open>s.split()\<close>: the maximal runs of non-whitespace characters, in order. The first
  argument is the word being read.
\<close>

fun split_acc :: "string \<Rightarrow> string \<Rightarrow> string list" where
  "split_acc w [] = (if w = [] then [] else [w])"
| "split_acc w (c # cs) =
     (if isspace c then (if w = [] then split_acc [] cs else w # split_acc [] cs)
      else split_acc (w @ [c]) cs)"

definition py_split :: "string \<Rightarrow> string list" where
  "py_split s = split_acc [] s"

text \<open>\<open>' '.join(ws)\<close>.\<close>

fun join_sp :: "string list \<Rightarrow> string" where
  "join_sp [] = []"
| "join_sp [w] = w"
| "join_sp (w # v # ws) = w @ CHR '' '' # join_sp (v # ws)"

text \<open>
  \<open>xs[i:j]\<close> for arbitrary integers: a negative bound counts from the end, and both
  bounds are clamped to the list.
\<close>

definition py_slice :: "'a list \<Rightarrow> int \<Rightarrow> int \<Rightarrow> 'a list" where
  "py_slice xs i j =
     (let n = int (length xs);
          lo = (if i < 0 then max 0 (i + n) else min i n);
          hi = (if j < 0 then max 0 (j + n) else min j n)
      in take (nat (hi - lo)) (drop (nat lo) xs))"

section \<open>MistralClient\<close>

text \<open>
  The remote service is the environment. Each \<open>requests.post\<close> consumes the next reply
  of the addressed endpoint; a reply is one of the four ways the body of the \<open>try\<close> block
  can end: status 429, \<open>raise_for_status\<close> raising \<open>HTTPError\<close> with a message, any
  other exception (time-out, transport error, undecodable body, missing key), or a decoded
  payload. The request payload has no influence on the control flow and is not represented;
  the replies are arbitrary. Sleeping and the measured latency are left out.

  A successful embedding reply is taken to be what the service promises: one vector of
  the model's dimension for each input text, in order. It is represented by the function
  from input text to vector.
\<close>

datatype 'p reply = Status429 | HTTPError string | OtherError string | Success 'p

datatype exn =
    RuntimeError string | ValueError | AttributeError | AssertionError | IndexError | TypeError

record MistralClient =
  call_count :: nat
  embed_count :: nat

record 'v world =
  chat_reply :: "nat \<Rightarrow> string reply"
  embed_reply :: "nat \<Rightarrow> (string \<Rightarrow> 'v) reply"
  chat_posts :: nat
  embed_posts :: nat
  client :: MistralClient

definition post_chat :: "'v world \<Rightarrow> string reply \<times> 'v world" where
  "post_chat w = (chat_reply w (chat_posts w), w\<lparr>chat_posts := Suc (chat_posts w)\<rparr>)"

definition post_embed :: "'v world \<Rightarrow> (string \<Rightarrow> 'v) reply \<times> 'v world" where
  "post_embed w = (embed_reply w (embed_posts w), w\<lparr>embed_posts := Suc (embed_posts w)\<rparr>)"

definition api_error :: "string \<Rightarrow> string" where
  "api_error e = ''[API_ERROR: '' @ e @ '']''"

text \<open>
  \<open>chat\<close>: the loop \<open>for attempt in range(5)\<close>, as a recursion over the attempt numbers
  still to run. \<open>continue\<close> and the end of an \<open>except\<close> block both go on with the
  remaining attempts; falling out of the loop returns the \<open>max retries\<close> marker.
\<close>

fun chat_loop :: "nat list \<Rightarrow> 'v world \<Rightarrow> string \<times> 'v world" where
  "chat_loop [] w = (api_error ''max retries'', w)"
| "chat_loop (attempt # rest) w =
     (case post_chat w of
        (Status429, w') \<Rightarrow> chat_loop rest w'
      | (Success output, w') \<Rightarrow>
          (output, w'\<lparr>client := (client w')\<lparr>call_count := call_count (client w') + 1\<rparr>\<rparr>)
      | (HTTPError e, w') \<Rightarrow>
          if contains ''429'' e then chat_loop rest w'
          else if attempt < 4 then chat_loop rest w'
          else (api_error e, w')
      | (OtherError e, w') \<Rightarrow>
          if attempt < 4 then chat_loop rest w'
          else (api_error e, w'))"

definition chat :: "'v world \<Rightarrow> string \<times> 'v world" where
  "chat w = chat_loop [0..<5] w"

text \<open>
  \<open>embed\<close>: the same loop with a single \<open>except Exception\<close>. On the last attempt an
  exception is turned into \<open>RuntimeError\<close>; a 429 on the last attempt \<open>continue\<close>s out
  of the loop, and the function ends without a \<open>return\<close>, that is, returns \<open>None\<close>.
\<close>

fun embed_loop :: "nat list \<Rightarrow> string list \<Rightarrow> 'v world \<Rightarrow> (exn + 'v list option) \<times> 'v world" where
  "embed_loop [] texts w = (Inr None, w)"
| "embed_loop (attempt # rest) texts w =
     (case post_embed w of
        (Status429, w') \<Rightarrow> embed_loop rest texts w'
      | (Success f, w') \<Rightarrow>
          (Inr (Some (map f texts)),
           w'\<lparr>client := (client w')\<lparr>embed_count := embed_count (client w') + length texts\<rparr>\<rparr>)
      | (HTTPError e, w') \<Rightarrow>
          if attempt < 4 then embed_loop rest texts w'
          else (Inl (RuntimeError (''Embedding failed: '' @ e)), w')
      | (OtherError e, w') \<Rightarrow>
          if attempt < 4 then embed_loop rest texts w'
          else (Inl (RuntimeError (''Embedding failed: '' @ e)), w'))"

definition embed :: "string list \<Rightarrow> 'v world \<Rightarrow> (exn + 'v list option) \<times> 'v world" where
  "embed texts w = embed_loop [0..<5] texts w"

text \<open>An endpoint that answers every request with status 429.\<close>

definition rate_limited :: "'v world" where
  "rate_limited = \<lparr>chat_reply = (\<lambda>_. Status429), embed_reply = (\<lambda>_. Status429),
     chat_posts = 0, embed_posts = 0, client = \<lparr>call_count = 0, embed_count = 0\<rparr>\<rparr>"

definition is_failure :: "'p reply \<Rightarrow> bool" where
  "is_failure r = (case r of Success _ \<Rightarrow> False | _ \<Rightarrow> True)"

definition is_sentinel :: "string \<Rightarrow> bool" where
  "is_sentinel s = (take 12 s = ''[API_ERROR: '' \<and> s \<noteq> [] \<and> last s = CHR '']'')"

section \<open>DocumentChunker\<close>

record document =
  d_id :: string
  d_title :: string
  d_content :: string

record chunk =
  chunk_id :: nat
  doc_id :: string
  title :: string
  chunk_text :: string

record DocumentChunker =
  chunk_size :: int
  overlap :: int

text \<open>\<open>__init__\<close> stores its two arguments; it checks nothing.\<close>

definition DocumentChunker_init :: "int \<Rightarrow> int \<Rightarrow> DocumentChunker" where
  "DocumentChunker_init cs ov = \<lparr>chunk_size = cs, overlap = ov\<rparr>"

definition window_chunk :: "DocumentChunker \<Rightarrow> document \<Rightarrow> string list \<Rightarrow> nat \<Rightarrow> int \<Rightarrow> chunk" where
  "window_chunk self doc words cid start =
     \<lparr>chunk_id = cid, doc_id = d_id doc, title = d_title doc,
      chunk_text = join_sp (py_slice words start (min (start + chunk_size self) (int (length words))))\<rparr>"

text \<open>
  The \<open>while start < len(words)\<close> loop. The state is \<open>start\<close> and the pair of
  \<open>all_chunks\<close> and \<open>chunk_id\<close>. Nothing in the code bounds the number of rounds, so
  the loop is a partial function: \<open>None\<close> means that it does not return.
\<close>

partial_function (option) window_loop ::
  "DocumentChunker \<Rightarrow> document \<Rightarrow> string list \<Rightarrow> int \<Rightarrow> chunk list \<times> nat \<Rightarrow> (chunk list \<times> nat) option" where
  "window_loop self doc words start acc =
     (if start < int (length words)
      then window_loop self doc words (start + (chunk_size self - overlap self))
             (fst acc @ [window_chunk self doc words (snd acc) start], Suc (snd acc))
      else Some acc)"

declare window_loop.simps [code]

definition whole_chunk :: "document \<Rightarrow> nat \<Rightarrow> chunk" where
  "whole_chunk doc cid =
     \<lparr>chunk_id = cid, doc_id = d_id doc, title = d_title doc, chunk_text = d_content doc\<rparr>"

fun documents_loop ::
  "DocumentChunker \<Rightarrow> document list \<Rightarrow> chunk list \<times> nat \<Rightarrow> (chunk list \<times> nat) option" where
  "documents_loop self [] acc = Some acc"
| "documents_loop self (doc # docs) acc =
     (if int (length (py_split (d_content doc))) \<le> chunk_size self
      then documents_loop self docs (fst acc @ [whole_chunk doc (snd acc)], Suc (snd acc))
      else (case window_loop self doc (py_split (d_content doc)) 0 acc of
              None \<Rightarrow> None
            | Some acc' \<Rightarrow> documents_loop self docs acc'))"

definition chunk_documents :: "DocumentChunker \<Rightarrow> document list \<Rightarrow> chunk list option" where
  "chunk_documents self documents = map_option fst (documents_loop self documents ([], 0))"

subsection \<open>Windows, for stating what the chunker emits\<close>

text \<open>
  The definitions of this subsection are not part of the program. They describe the result
  of the loops: the window start positions, the chunks emitted for them, the chunks of one
  document and the grouping of the output by document.
\<close>

definition is_word :: "string \<Rightarrow> bool" where
  "is_word w = (w \<noteq> [] \<and> (\<forall>c \<in> set w. \<not> isspace c))"

function window_starts :: "int \<Rightarrow> int \<Rightarrow> int \<Rightarrow> int list" where
  "window_starts adv len start =
     (if 0 < adv \<and> start < len then start # window_starts adv len (start + adv) else [])"
  by pat_completeness auto
termination
  by (relation "measure (\<lambda>(adv, len, start). nat (len - start))") auto

declare window_starts.simps [simp del]

primrec emit :: "DocumentChunker \<Rightarrow> document \<Rightarrow> string list \<Rightarrow> nat \<Rightarrow> int list \<Rightarrow> chunk list" where
  "emit self doc words cid [] = []"
| "emit self doc words cid (s # ss) =
     window_chunk self doc words cid s # emit self doc words (Suc cid) ss"

definition shares_boundary :: "nat \<Rightarrow> 'a list \<Rightarrow> 'a list \<Rightarrow> bool" where
  "shares_boundary n A B = (n \<le> length A \<and> n \<le> length B \<and> drop (length A - n) A = take n B)"

definition doc_chunks :: "DocumentChunker \<Rightarrow> document \<Rightarrow> nat \<Rightarrow> chunk list" where
  "doc_chunks self doc cid =
     (if int (length (py_split (d_content doc))) \<le> chunk_size self then [whole_chunk doc cid]
      else emit self doc (py_split (d_content doc)) cid
             (window_starts (chunk_size self - overlap self) (int (length (py_split (d_content doc)))) 0))"

primrec chunk_groups :: "DocumentChunker \<Rightarrow> nat \<Rightarrow> document list \<Rightarrow> chunk list list" where
  "chunk_groups self cid [] = []"
| "chunk_groups self cid (d # ds) =
     doc_chunks self d cid # chunk_groups self (cid + length (doc_chunks self d cid)) ds"

definition chunk_words :: "chunk list \<Rightarrow> string list list" where
  "chunk_words cs = map (\<lambda>c. py_split (chunk_text c)) cs"

text \<open>One chunk holding the whole content for each document, numbered from \<open>cid\<close>.\<close>

primrec whole_chunks :: "nat \<Rightarrow> document list \<Rightarrow> chunk list" where
  "whole_chunks cid [] = []"
| "whole_chunks cid (d # ds) = whole_chunk d cid # whole_chunks (Suc cid) ds"

definition word_count :: "document \<Rightarrow> int" where
  "word_count d = int (length (py_split (d_content d)))"

text \<open>A document of blanks only.\<close>

definition blank_doc :: document where
  "blank_doc = \<lparr>d_id = ''blank'', d_title = ''Blank'', d_content = '' ''\<rparr>"

text \<open>A four-word document and a three-word document, for concrete runs.\<close>

definition four_words :: document where
  "four_words = \<lparr>d_id = ''doc'', d_title = ''Title'', d_content = ''a b c d''\<rparr>"

definition three_words :: document where
  "three_words = \<lparr>d_id = ''doc'', d_title = ''Title'', d_content = ''a b c''\<rparr>"

section \<open>VectorStore\<close>

text \<open>
  Embedding vectors are values of an arbitrary type \<open>'v\<close>, all of the model's one
  dimension \<open>dim\<close>, and similarity scores are values of a linearly ordered type \<open>'s\<close>.
  What numpy and faiss compute is a parameter: the L2 normalisation of a vector, the inner
  product of two vectors, the lowest float, which faiss reports as the score of a missing
  result, and the order in which faiss reports two vectors of equal score, which the
  library does not fix: \<open>tie_first i j\<close> tells that the vector with label \<open>i\<close> is reported
  before the earlier vector with label \<open>j\<close>.
\<close>

record ('v, 's) float_ops =
  dim :: nat
  normalize_L2 :: "'v \<Rightarrow> 'v"
  inner_product :: "'v \<Rightarrow> 'v \<Rightarrow> 's"
  lowest :: 's
  tie_first :: "int \<Rightarrow> int \<Rightarrow> bool"

text \<open>\<open>faiss.IndexFlatIP\<close>: its dimension and the vectors added so far, in order.\<close>

record 'v IndexFlatIP =
  index_d :: nat
  index_xb :: "'v list"

record 'v VectorStore =
  index :: "'v IndexFlatIP option"
  chunks :: "chunk list"

definition VectorStore_init :: "'v VectorStore" where
  "VectorStore_init = \<lparr>index = None, chunks = []\<rparr>"

text \<open>\<open>[texts[i:i+n] for i in range(0, len(texts), n)]\<close>\<close>

function batches :: "nat \<Rightarrow> 'a list \<Rightarrow> 'a list list" where
  "batches n xs = (if n = 0 \<or> xs = [] then [] else take n xs # batches n (drop n xs))"
  by pat_completeness auto
termination
  by (relation "measure (\<lambda>(n, xs). length xs)") auto

declare batches.simps [simp del]

text \<open>
  The loop over the batches: the results of \<open>client.embed\<close> are collected until one
  call raises. A result is \<open>None\<close> when \<open>embed\<close> returned nothing.
\<close>

fun embed_batches :: "string list list \<Rightarrow> 'v world \<Rightarrow> (exn + 'v list option list) \<times> 'v world" where
  "embed_batches [] w = (Inr [], w)"
| "embed_batches (b # bs) w =
     (case embed b w of
        (Inl e, w') \<Rightarrow> (Inl e, w')
      | (Inr a, w') \<Rightarrow>
          (case embed_batches bs w' of
             (Inl e, w'') \<Rightarrow> (Inl e, w'')
           | (Inr as, w'') \<Rightarrow> (Inr (a # as), w'')))"

text \<open>
  \<open>np.vstack\<close> raises \<open>ValueError\<close> for an empty list and for arrays whose row lengths
  differ. It turns \<open>None\<close> into a 1-by-1 array of objects; so a list with a \<open>None\<close> is
  stacked into an array of objects with one column if every other entry has one column
  too, and is rejected otherwise.
\<close>

datatype 'v stacked = ObjectArray | FloatArray "'v list"

fun rows_of :: "'v list option list \<Rightarrow> 'v list" where
  "rows_of [] = []"
| "rows_of (None # as) = rows_of as"
| "rows_of (Some rows # as) = rows @ rows_of as"

definition vstack :: "nat \<Rightarrow> 'v list option list \<Rightarrow> exn + 'v stacked" where
  "vstack d arrs =
     (if arrs = [] then Inl ValueError
      else if None \<in> set arrs
      then (if list_all (\<lambda>a. a = None) arrs \<or> d = 1 then Inr ObjectArray else Inl ValueError)
      else Inr (FloatArray (rows_of arrs)))"

text \<open>
  \<open>build_index\<close>. \<open>self.chunks\<close> is assigned first. When the stacked array is an array
  of objects, \<open>self.index\<close> is assigned an empty index of dimension 1 before
  \<open>faiss.normalize_L2\<close> rejects the array with \<open>ValueError\<close>.
\<close>

definition build_index ::
  "('v, 's) float_ops \<Rightarrow> chunk list \<Rightarrow> 'v VectorStore \<times> 'v world \<Rightarrow>
   (exn + unit) \<times> 'v VectorStore \<times> 'v world" where
  "build_index fo cs sw =
     (case embed_batches (batches 10 (map chunk_text cs)) (snd sw) of
        (Inl e, w') \<Rightarrow> (Inl e, (fst sw)\<lparr>chunks := cs\<rparr>, w')
      | (Inr arrs, w') \<Rightarrow>
          (case vstack (dim fo) arrs of
             Inl e \<Rightarrow> (Inl e, (fst sw)\<lparr>chunks := cs\<rparr>, w')
           | Inr ObjectArray \<Rightarrow>
               (Inl ValueError,
                (fst sw)\<lparr>chunks := cs, index := Some \<lparr>index_d = 1, index_xb = []\<rparr>\<rparr>, w')
           | Inr (FloatArray rows) \<Rightarrow>
               (Inr (),
                (fst sw)\<lparr>chunks := cs,
                  index := Some \<lparr>index_d = dim fo, index_xb = map (normalize_L2 fo) rows\<rparr>\<rparr>, w')))"

text \<open>
  \<open>IndexFlatIP.search\<close> for one query vector and \<open>k > 0\<close>, after the library's
  description: exactly \<open>k\<close> pairs of score and label, the stored vectors ranked by
  decreasing inner product with the query, vectors of equal score in the order that
  \<open>tie_first\<close> gives; when the index holds fewer than \<open>k\<close> vectors the missing results have
  the label \<open>-1\<close> and the lowest score.
\<close>

fun rank_insert ::
  "(int \<Rightarrow> int \<Rightarrow> bool) \<Rightarrow> ('s::linorder) \<times> int \<Rightarrow> ('s \<times> int) list \<Rightarrow> ('s \<times> int) list" where
  "rank_insert t x [] = [x]"
| "rank_insert t x (y # ys) =
     (if fst y < fst x \<or> (fst y = fst x \<and> t (snd x) (snd y)) then x # y # ys
      else y # rank_insert t x ys)"

definition ranked :: "('v, 's::linorder) float_ops \<Rightarrow> 'v list \<Rightarrow> 'v \<Rightarrow> ('s \<times> int) list" where
  "ranked fo xb q =
     foldl (\<lambda>acc p. rank_insert (tie_first fo) p acc) []
       (zip (map (inner_product fo q) xb) (map int [0..<length xb]))"

definition IndexFlatIP_search ::
  "('v, 's::linorder) float_ops \<Rightarrow> 'v IndexFlatIP \<Rightarrow> 'v \<Rightarrow> nat \<Rightarrow> ('s \<times> int) list" where
  "IndexFlatIP_search fo ix q k =
     take k (ranked fo (index_xb ix) q) @ replicate (k - length (index_xb ix)) (lowest fo, - 1)"


text \<open>\<open>xs[i]\<close> for an arbitrary integer.\<close>

definition py_index :: "'a list \<Rightarrow> int \<Rightarrow> exn + 'a" where
  "py_index xs i =
     (let n = int (length xs); j = (if i < 0 then i + n else i)
      in if 0 \<le> j \<and> j < n then Inr (xs ! nat j) else Inl IndexError)"

record 's hit = chunk +
  relevance_score :: 's

definition with_score :: "chunk \<Rightarrow> 's \<Rightarrow> 's hit" where
  "with_score c s = \<lparr>chunk_id = chunk_id c, doc_id = doc_id c, title = title c,
     chunk_text = chunk_text c, relevance_score = s\<rparr>"

text \<open>The loop over \<open>zip(scores[0], indices[0])\<close>.\<close>

fun collect :: "chunk list \<Rightarrow> ('s \<times> int) list \<Rightarrow> exn + 's hit list" where
  "collect cs [] = Inr []"
| "collect cs ((score, idx) # rest) =
     (if idx < int (length cs)
      then (case py_index cs idx of
              Inl e \<Rightarrow> Inl e
            | Inr c \<Rightarrow> (case collect cs rest of
                          Inl e \<Rightarrow> Inl e
                        | Inr results \<Rightarrow> Inr (with_score c score # results)))
      else collect cs rest)"

text \<open>
  \<open>search\<close>. The query is embedded first. \<open>faiss.normalize_L2(None)\<close> and
  \<open>None.search\<close> raise \<open>AttributeError\<close>; the index asserts that the query has its
  dimension and that \<open>k\<close> is positive.
\<close>

definition search ::
  "('v, 's::linorder) float_ops \<Rightarrow> string \<Rightarrow> int \<Rightarrow> 'v VectorStore \<Rightarrow> 'v world \<Rightarrow>
   (exn + 's hit list) \<times> 'v world" where
  "search fo query top_k self w =
     (case embed [query] w of
        (Inl e, w') \<Rightarrow> (Inl e, w')
      | (Inr None, w') \<Rightarrow> (Inl AttributeError, w')
      | (Inr (Some []), w') \<Rightarrow> (Inl IndexError, w')
      | (Inr (Some (q # _)), w') \<Rightarrow>
          (case index self of
             None \<Rightarrow> (Inl AttributeError, w')
           | Some ix \<Rightarrow>
               if dim fo = index_d ix \<and> 0 < top_k
               then (collect (chunks self)
                       (IndexFlatIP_search fo ix (normalize_L2 fo q) (nat top_k)), w')
               else (Inl AssertionError, w')))"

definition TOP_K :: int where
  "TOP_K = 5"

text \<open>
  Concrete data for runs: vectors are lists of integers with the exact inner product, and
  the vectors used are unit vectors, which normalisation leaves as they are.
\<close>

definition unit_ops :: "(int list, int) float_ops" where
  "unit_ops = \<lparr>dim = 2, normalize_L2 = (\<lambda>v. v),
     inner_product = (\<lambda>u v. sum_list (map (\<lambda>(a, b). a * b) (zip u v))), lowest = - 1000,
     tie_first = (\<lambda>i j. False)\<rparr>"

definition one_chunk :: "chunk list" where
  "one_chunk = [\<lparr>chunk_id = 0, doc_id = ''doc'', title = ''Title'', chunk_text = ''a b c''\<rparr>]"

text \<open>A service that answers every embedding request with the vector \<open>(1, 0)\<close> for each
  input, and every chat request with the same text.\<close>

definition steady :: "int list world" where
  "steady = \<lparr>chat_reply = (\<lambda>_. Success ''four words of text''),
     embed_reply = (\<lambda>_. Success (\<lambda>_. [1, 0])),
     chat_posts = 0, embed_posts = 0, client = \<lparr>call_count = 0, embed_count = 0\<rparr>\<rparr>"


section \<open>RAGPipelineV2\<close>

text \<open>
  The test \<open>len(revised.split()) >= len(answer.split()) * 0.7\<close> multiplies an integer by
  a double and compares an integer with the product. The arithmetic is that of IEEE
  doubles, written out on natural numbers: \<open>round_to_double\<close> rounds a natural number to
  53 significant bits, ties to even, which is both the conversion \<open>float(n)\<close> and, up to
  the scaling by \<open>2^52\<close>, the rounding of a product. The double \<open>0.7\<close> is
  \<open>3152519739159347 / 2^52\<close>. Python compares an integer and a double exactly.
\<close>

fun bit_length :: "nat \<Rightarrow> nat" where
  "bit_length n = (if n = 0 then 0 else Suc (bit_length (n div 2)))"

declare bit_length.simps [simp del]

definition round_to_double :: "nat \<Rightarrow> nat" where
  "round_to_double x =
     (if bit_length x \<le> 53 then x
      else let s = bit_length x - 53; q = x div 2 ^ s; r = x mod 2 ^ s; h = 2 ^ (s - 1)
           in if r < h \<or> (r = h \<and> even q) then q * 2 ^ s else (q + 1) * 2 ^ s)"

definition SEVEN_TENTHS :: nat where
  "SEVEN_TENTHS = 3152519739159347"

definition revision_accepted :: "nat \<Rightarrow> nat \<Rightarrow> bool" where
  "revision_accepted revised_words answer_words =
     (round_to_double (round_to_double answer_words * SEVEN_TENTHS) \<le> revised_words * 2 ^ 52)"

record 's rag_result =
  r_query :: string
  r_output :: string
  api_calls :: nat
  chunks_retrieved :: nat
  chunk_sources :: "string set"
  initial_answer_words :: nat
  final_answer_words :: nat
  retrieved_chunks :: "(string \<times> string \<times> 's) list"

record ('v, 's) RAGPipelineV2 =
  vector_store :: "'v VectorStore"
  responses :: "'s rag_result list"

text \<open>
  \<open>process\<close>: retrieval, the draft, the revision, the choice between them. The two
  prompts only travel to the service. Latency and timestamp are left out of the result.
\<close>

definition process ::
  "('v, 's::linorder) float_ops \<Rightarrow> string \<Rightarrow> ('v, 's) RAGPipelineV2 \<Rightarrow> 'v world \<Rightarrow>
   (exn + 's rag_result) \<times> ('v, 's) RAGPipelineV2 \<times> 'v world" where
  "process fo query self w =
     (case search fo query TOP_K (vector_store self) w of
        (Inl e, w1) \<Rightarrow> (Inl e, self, w1)
      | (Inr retrieved, w1) \<Rightarrow>
          (case chat w1 of (answer, w2) \<Rightarrow>
          (case chat w2 of (revised, w3) \<Rightarrow>
             (let final_output =
                    (if revision_accepted (length (py_split revised)) (length (py_split answer))
                     then revised else answer);
                  result = \<lparr>r_query = query, r_output = final_output, api_calls = 2,
                    chunks_retrieved = length retrieved,
                    chunk_sources = set (map doc_id retrieved),
                    initial_answer_words = length (py_split answer),
                    final_answer_words = length (py_split final_output),
                    retrieved_chunks =
                      map (\<lambda>c. (doc_id c, title c, relevance_score c)) retrieved\<rparr>
              in (Inr result, self\<lparr>responses := responses self @ [result]\<rparr>, w3)))))"

text \<open>
  Two services whose first chat reply is a draft of ten words: the later chat replies of
  \<open>shortening\<close> are a revision of four words, those of \<open>revising\<close> a revision of seven
  words. And the pipeline over a store built from one chunk.
\<close>

definition shortening :: "int list world" where
  "shortening = \<lparr>chat_reply = (\<lambda>i. if i = 0 then Success ''a b c d e f g h i j''
                                       else Success ''a b c d''),
     embed_reply = (\<lambda>_. Success (\<lambda>_. [1, 0])),
     chat_posts = 0, embed_posts = 0, client = \<lparr>call_count = 0, embed_count = 0\<rparr>\<rparr>"

definition revising :: "int list world" where
  "revising = \<lparr>chat_reply = (\<lambda>i. if i = 0 then Success ''a b c d e f g h i j''
                                     else Success ''t u v w x y z''),
     embed_reply = (\<lambda>_. Success (\<lambda>_. [1, 0])),
     chat_posts = 0, embed_posts = 0, client = \<lparr>call_count = 0, embed_count = 0\<rparr>\<rparr>"

definition one_chunk_pipeline :: "(int list, int) RAGPipelineV2" where
  "one_chunk_pipeline =
     \<lparr>vector_store = \<lparr>index = Some \<lparr>index_d = 2, index_xb = [[1, 0]]\<rparr>, chunks = one_chunk\<rparr>,
      responses = []\<rparr>"

section \<open>LLMJudge\<close>

text \<open>
  Python values as far as the judge handles them: what \<open>json.loads\<close> can return, and the
  verdict dictionary built from it. A dictionary is the list of its items in insertion
  order, with string keys. A float is kept as the literal that denotes it; the judge
  never computes with one.
\<close>

datatype pyval =
    PNone | PBool bool | PInt int | PFloat string | PStr string
  | PList "pyval list" | PDict "(string \<times> pyval) list"

type_synonym pydict = "(string \<times> pyval) list"

definition dict_get :: "pydict \<Rightarrow> string \<Rightarrow> pyval \<Rightarrow> pyval" where
  "dict_get d k dflt = (case map_of d k of None \<Rightarrow> dflt | Some v \<Rightarrow> v)"

definition dict_pop :: "pydict \<Rightarrow> string \<Rightarrow> pyval \<Rightarrow> pyval \<times> pydict" where
  "dict_pop d k dflt = (dict_get d k dflt, AList.delete k d)"

definition dict_set :: "pydict \<Rightarrow> string \<Rightarrow> pyval \<Rightarrow> pydict" where
  "dict_set d k v = AList.update k v d"

subsection \<open>The three regular expressions\<close>

text \<open>
  \<open>re.search(r'\{[\s\S]*\}', text)\<close>: the match starts at the first opening brace and,
  the star being greedy, ends at the last closing brace after it.
\<close>

definition brace_match :: "string \<Rightarrow> string option" where
  "brace_match s =
     (let from_open = dropWhile (\<lambda>c. c \<noteq> CHR ''{'') s
      in if from_open = [] \<or> CHR ''}'' \<notin> set (tl from_open) then None
         else Some (rev (dropWhile (\<lambda>c. c \<noteq> CHR ''}'') (rev from_open))))"

text \<open>Matching under \<open>re.IGNORECASE\<close>, for ASCII letters.\<close>

definition lower :: "char \<Rightarrow> char" where
  "lower c = (let n = (of_char c :: nat) in if 65 \<le> n \<and> n \<le> 90 then char_of (n + 32) else c)"

text \<open>
  \<open>starts_ci p s\<close>: the lower-case word \<open>p\<close> matches at the start of \<open>s\<close>; the result is
  the rest of \<open>s\<close>.
\<close>

fun starts_ci :: "string \<Rightarrow> string \<Rightarrow> string option" where
  "starts_ci [] s = Some s"
| "starts_ci (p # ps) [] = None"
| "starts_ci (p # ps) (c # cs) = (if lower c = p then starts_ci ps cs else None)"

definition is_digit :: "char \<Rightarrow> bool" where
  "is_digit c = (let n = (of_char c :: nat) in 48 \<le> n \<and> n \<le> 57)"

definition digit_value :: "char \<Rightarrow> int" where
  "digit_value c = int (of_char c) - 48"

definition is_sep :: "char \<Rightarrow> bool" where
  "is_sep c = (of_char c = (34::nat) \<or> isspace c \<or> c = CHR '':'')"

text \<open>
  The tail \<open>["\s:]+(\d)\<close> of the dimension pattern: one or more separators, then a
  digit. No digit is a separator, so the separators matched are all that stand there.
\<close>

definition digit_after_seps :: "string \<Rightarrow> int option" where
  "digit_after_seps s =
     (case dropWhile is_sep s of
        [] \<Rightarrow> None
      | c # _ \<Rightarrow> if s \<noteq> [] \<and> is_sep (hd s) \<and> is_digit c then Some (digit_value c) else None)"

text \<open>
  \<open>re.search(rf'{dim}["\s:]+(\d)', text, re.IGNORECASE)\<close>: the digit captured at the
  leftmost position where the pattern matches.
\<close>

fun search_dim :: "string \<Rightarrow> string \<Rightarrow> int option" where
  "search_dim name [] = None"
| "search_dim name (c # cs) =
     (case (case starts_ci name (c # cs) of None \<Rightarrow> None | Some rest \<Rightarrow> digit_after_seps rest) of
        Some d \<Rightarrow> Some d
      | None \<Rightarrow> search_dim name cs)"

text \<open>
  \<open>re.search(r'prefer.*?X', text, re.I)\<close> for the letter \<open>X\<close>, given in lower case:
  some occurrence of \<open>prefer\<close> is followed, before the next line feed, by the letter in
  either case.
\<close>

fun prefers :: "char \<Rightarrow> string \<Rightarrow> bool" where
  "prefers x [] = False"
| "prefers x (c # cs) =
     ((case starts_ci ''prefer'' (c # cs) of
         None \<Rightarrow> False
       | Some rest \<Rightarrow> x \<in> lower ` set (takeWhile (\<lambda>c. c \<noteq> CHR 0x0A) rest))
      \<or> prefers x cs)"

subsection \<open>Parsing and the verdict\<close>

definition DIMS :: "string list" where
  "DIMS = [''accuracy'', ''completeness'', ''balance'', ''clarity'', ''calibration'', ''helpfulness'']"

text \<open>The fallback of \<open>_parse\<close>: the same section is built for both labels.\<close>

definition section_of :: "string \<Rightarrow> pydict" where
  "section_of s =
     map (\<lambda>name. (name, PInt (case search_dim name s of None \<Rightarrow> 3 | Some d \<Rightarrow> d))) DIMS"

definition extracted :: "string \<Rightarrow> pydict" where
  "extracted s =
     [(''response_a'', PDict (section_of s)), (''response_b'', PDict (section_of s)),
      (''preferred'', PStr (if prefers CHR ''a'' s then ''A''
                             else if prefers CHR ''b'' s then ''B'' else ''TIE'')),
      (''reasoning'', PStr ''Extracted'')]"

text \<open>
  \<open>_parse\<close>. \<open>json.loads\<close> is a parameter: applied to a text that starts and ends with a
  brace it returns a dictionary, or raises, which is \<open>None\<close> here. Nothing in the second
  \<open>try\<close> block can raise on a string, so its \<open>return None\<close> is never reached.
\<close>

definition parse_json :: "(string \<Rightarrow> pydict option) \<Rightarrow> string \<Rightarrow> pydict option" where
  "parse_json json_loads s = (case brace_match s of None \<Rightarrow> None | Some m \<Rightarrow> json_loads m)"

definition judge_parse :: "(string \<Rightarrow> pydict option) \<Rightarrow> string \<Rightarrow> pydict option" where
  "judge_parse json_loads s =
     (case parse_json json_loads s of
        Some d \<Rightarrow> Some d
      | None \<Rightarrow> Some (extracted s))"

definition neutral_scores :: pydict where
  "neutral_scores = map (\<lambda>d. (d, PInt 3)) DIMS"

definition default_verdict :: pydict where
  "default_verdict =
     [(''normal_scores'', PDict neutral_scores), (''rag_scores'', PDict neutral_scores),
      (''winner'', PStr ''tie''), (''reasoning'', PStr ''Parse failed'')]"

text \<open>
  \<open>{"A": for_A, "B": for_B}.get(key, "tie")\<close>: looking up a list or a dictionary raises
  \<open>TypeError\<close>, as they cannot be hashed.
\<close>

definition winner_of :: "string \<Rightarrow> string \<Rightarrow> pyval \<Rightarrow> exn + string" where
  "winner_of for_A for_B key =
     (case key of
        PList _ \<Rightarrow> Inl TypeError
      | PDict _ \<Rightarrow> Inl TypeError
      | PStr s \<Rightarrow> Inr (if s = ''A'' then for_A else if s = ''B'' then for_B else ''tie'')
      | _ \<Rightarrow> Inr ''tie'')"

text \<open>
  The two branches of the relabelling in \<open>evaluate\<close> differ in the keys under which the
  scores of A and B are stored and in the names that the preference is mapped to.
\<close>

definition relabel :: "string \<Rightarrow> string \<Rightarrow> string \<Rightarrow> string \<Rightarrow> pydict \<Rightarrow> exn + pydict" where
  "relabel key_A key_B for_A for_B scores =
     (let (va, s1) = dict_pop scores ''response_a'' (PDict []);
          s2 = dict_set s1 key_A va;
          (vb, s3) = dict_pop s2 ''response_b'' (PDict []);
          s4 = dict_set s3 key_B vb
      in case winner_of for_A for_B (dict_get s4 ''preferred'' (PStr [])) of
           Inl e \<Rightarrow> Inl e
         | Inr win \<Rightarrow> Inr (dict_set s4 ''winner'' (PStr win)))"

text \<open>
  \<open>a_is_normal\<close> tells that label A was given to the answer of the plain model. An empty
  dictionary is false in Python, as \<open>None\<close> is.
\<close>

definition verdict :: "bool \<Rightarrow> pydict option \<Rightarrow> exn + pydict" where
  "verdict a_is_normal parsed =
     (case parsed of
        None \<Rightarrow> Inr default_verdict
      | Some scores \<Rightarrow>
          if scores = [] then Inr default_verdict
          else if a_is_normal
          then relabel ''normal_scores'' ''rag_scores'' ''normal'' ''rag'' scores
          else relabel ''rag_scores'' ''normal_scores'' ''rag'' ''normal'' scores)"

record LLMJudge =
  evaluations :: "pydict list"

text \<open>
  \<open>evaluate\<close>. The first argument after \<open>json.loads\<close> is the outcome of
  \<open>random.random() > 0.5\<close>. The prompt, and with it the two answers, only travels to the
  service.
\<close>

definition evaluate ::
  "(string \<Rightarrow> pydict option) \<Rightarrow> bool \<Rightarrow> LLMJudge \<Rightarrow> 'v world \<Rightarrow> (exn + pydict) \<times> LLMJudge \<times> 'v world" where
  "evaluate json_loads a_is_normal self w =
     (case chat w of
        (output, w') \<Rightarrow>
          (case verdict a_is_normal (judge_parse json_loads output) of
             Inl e \<Rightarrow> (Inl e, self, w')
           | Inr scores \<Rightarrow> (Inr scores, self\<lparr>evaluations := evaluations self @ [scores]\<rparr>, w')))"

subsection \<open>Notions for stating the judge's properties\<close>

text \<open>
  A response that is neither decoded as JSON nor matched by any of the patterns of the
  fallback.
\<close>

definition unparseable :: "(string \<Rightarrow> pydict option) \<Rightarrow> string \<Rightarrow> bool" where
  "unparseable json_loads s =
     (parse_json json_loads s = None \<and> list_all (\<lambda>name. search_dim name s = None) DIMS \<and>
      \<not> prefers CHR ''a'' s \<and> \<not> prefers CHR ''b'' s)"

text \<open>An entry of a returned verdict.\<close>

definition entry :: "string \<Rightarrow> exn + pydict \<Rightarrow> exn + pyval option" where
  "entry k r = (case r of Inl e \<Rightarrow> Inl e | Inr v \<Rightarrow> Inr (map_of v k))"

text \<open>A score mapping with an integer from 0 to 9 for each of the six dimensions.\<close>

definition has_all_dims :: "pyval option \<Rightarrow> bool" where
  "has_all_dims x =
     (case x of
        Some (PDict sec) \<Rightarrow>
          list_all (\<lambda>name. case map_of sec name of Some (PInt n) \<Rightarrow> 0 \<le> n \<and> n \<le> 9 | _ \<Rightarrow> False) DIMS
      | _ \<Rightarrow> False)"

text \<open>Values that cannot be dictionary keys.\<close>

definition unhashable :: "pyval \<Rightarrow> bool" where
  "unhashable p = (case p of PList _ \<Rightarrow> True | PDict _ \<Rightarrow> True | _ \<Rightarrow> False)"

text \<open>
  The judge's answer with the two labels exchanged: what is said of A is said of B and
  the preference is the other label.
\<close>

definition complement :: "pyval \<Rightarrow> pyval" where
  "complement p = (if p = PStr ''A'' then PStr ''B'' else if p = PStr ''B'' then PStr ''A'' else p)"

definition swapped :: "pydict \<Rightarrow> pydict \<Rightarrow> bool" where
  "swapped d d' =
     (map_of d' ''response_a'' = map_of d ''response_b'' \<and>
      map_of d' ''response_b'' = map_of d ''response_a'' \<and>
      dict_get d' ''preferred'' (PStr []) = complement (dict_get d ''preferred'' (PStr [])) \<and>
      (d' = []) = (d = []))"

text \<open>
  Concrete runs: a service whose every chat reply is a given text, a \<open>json.loads\<close> that
  rejects its input, and \<open>json.loads\<close> on each of the two JSON texts used below.
\<close>

definition judge_says :: "string \<Rightarrow> unit world" where
  "judge_says s = \<lparr>chat_reply = (\<lambda>_. Success s), embed_reply = (\<lambda>_. Status429),
     chat_posts = 0, embed_posts = 0, client = \<lparr>call_count = 0, embed_count = 0\<rparr>\<rparr>"

definition no_json :: "string \<Rightarrow> pydict option" where
  "no_json s = None"

definition loads_x :: "string \<Rightarrow> pydict option" where
  \<open>loads_x s = (if s = ''{"x": 1}'' then Some [(''x'', PInt 1)] else None)\<close>

definition loads_scored :: "string \<Rightarrow> pydict option" where
  \<open>loads_scored s =
     (if s = ''{"response_a": {"accuracy": 5}, "preferred": "A"}''
      then Some [(''response_a'', PDict [(''accuracy'', PInt 5)]), (''preferred'', PStr ''A'')]
      else None)\<close>

definition new_judge :: LLMJudge where
  "new_judge = \<lparr>evaluations = []\<rparr>"

section \<open>Retry budget\<close>

lemma upt_5: "[0..<5] = [0, 1, 2, 3, 4::nat]"
  by (simp add: upt_rec)

lemma is_sentinel_api_error: "is_sentinel (api_error e)"
  by (simp add: is_sentinel_def api_error_def)

lemma chat_loop_failures:
  assumes "\<forall>i < length as. is_failure (chat_reply w (chat_posts w + i))"
  shows "is_sentinel (fst (chat_loop as w)) \<and> chat_posts (snd (chat_loop as w)) \<le> chat_posts w + length as
         \<and> client (snd (chat_loop as w)) = client w"
  using assms
proof (induction as arbitrary: w)
  case Nil
  then show ?case by (simp add: is_sentinel_api_error)
next
  case (Cons a as)
  let ?w' = "w\<lparr>chat_posts := Suc (chat_posts w)\<rparr>"
  have first: "is_failure (chat_reply w (chat_posts w))"
    using Cons.prems by force
  have rest: "\<forall>i < length as. is_failure (chat_reply ?w' (chat_posts ?w' + i))"
    using Cons.prems by force
  note ih = Cons.IH [OF rest]
  show ?case
    using first ih
    by (cases "chat_reply w (chat_posts w)")
       (auto simp: post_chat_def is_failure_def is_sentinel_api_error)
qed

text \<open>
  The generation half of the retry policy: when the five replies that \<open>chat\<close> can
  consume are all failures, it returns an error marker as its text, and the call counter
  is unchanged.
\<close>

lemma chat_exhausted_returns_sentinel:
  assumes "\<forall>i < 5. is_failure (chat_reply w (chat_posts w + i))"
  shows "is_sentinel (fst (chat w)) \<and> client (snd (chat w)) = client w"
  using chat_loop_failures [of "[0..<5]" w] assms by (simp add: chat_def)

lemma embed_loop_rate_limited:
  assumes "\<forall>i < length as. embed_reply w (embed_posts w + i) = Status429"
  shows "fst (embed_loop as texts w) = Inr None"
  using assms
proof (induction as arbitrary: w)
  case Nil
  then show ?case by simp
next
  case (Cons a as)
  let ?w' = "w\<lparr>embed_posts := Suc (embed_posts w)\<rparr>"
  have first: "embed_reply w (embed_posts w) = Status429"
    using Cons.prems by force
  have rest: "\<forall>i < length as. embed_reply ?w' (embed_posts ?w' + i) = Status429"
    using Cons.prems by force
  show ?case
    using first Cons.IH [OF rest] by (simp add: post_embed_def)
qed

text \<open>
  The embedding half: when all five replies are failures, the outcome depends on the last
  one alone. An exception on the fifth attempt is raised as \<open>RuntimeError\<close>; a status 429
  on the fifth attempt ends the loop, and \<open>embed\<close> returns \<open>None\<close>.
\<close>

lemma embed_loop_failures:
  assumes "\<forall>a \<in> set as. a < 4"
    and "\<forall>i \<le> length as. is_failure (embed_reply w (embed_posts w + i))"
  shows "fst (embed_loop (as @ [4]) texts w) =
         (case embed_reply w (embed_posts w + length as) of
            Status429 \<Rightarrow> Inr None
          | HTTPError e \<Rightarrow> Inl (RuntimeError (''Embedding failed: '' @ e))
          | OtherError e \<Rightarrow> Inl (RuntimeError (''Embedding failed: '' @ e))
          | Success f \<Rightarrow> Inr None)"
  using assms
proof (induction as arbitrary: w)
  case Nil
  from Nil.prems(2) [rule_format, of 0] have "is_failure (embed_reply w (embed_posts w))"
    by simp
  then show ?case
    by (cases "embed_reply w (embed_posts w)") (simp_all add: post_embed_def is_failure_def)
next
  case (Cons a as)
  let ?w' = "w\<lparr>embed_posts := Suc (embed_posts w)\<rparr>"
  have first: "is_failure (embed_reply w (embed_posts w))"
    using Cons.prems(2) by force
  have rest: "\<forall>i \<le> length as. is_failure (embed_reply ?w' (embed_posts ?w' + i))"
    using Cons.prems(2) by force
  have small: "\<forall>a \<in> set as. a < 4" and a: "a < 4"
    using Cons.prems(1) by simp_all
  note ih = Cons.IH [OF small rest]
  show ?case
    using first ih a
    by (cases "embed_reply w (embed_posts w)") (simp_all add: post_embed_def is_failure_def)
qed

lemma embed_exhausted:
  assumes "\<forall>i < 5. is_failure (embed_reply w (embed_posts w + i))"
  shows "fst (embed texts w) =
         (case embed_reply w (embed_posts w + 4) of
            Status429 \<Rightarrow> Inr None
          | HTTPError e \<Rightarrow> Inl (RuntimeError (''Embedding failed: '' @ e))
          | OtherError e \<Rightarrow> Inl (RuntimeError (''Embedding failed: '' @ e))
          | Success f \<Rightarrow> Inr None)"
proof -
  have u: "[0..<5] = [0, 1, 2, 3] @ [4::nat]"
    by (simp add: upt_5)
  have l: "length [0, 1, 2, 3::nat] = 4"
    by simp
  have f: "\<forall>i \<le> length [0, 1, 2, 3::nat]. is_failure (embed_reply w (embed_posts w + i))"
    using assms unfolding l by auto
  have s: "\<forall>a \<in> set [0, 1, 2, 3::nat]. a < 4"
    by simp
  show ?thesis
    unfolding embed_def u using embed_loop_failures [OF s f, of texts] unfolding l .
qed

text \<open>
  C4. After five failed attempts \<open>chat\<close> returns an error marker and raises nothing
  (\<open>chat_exhausted_returns_sentinel\<close>). \<open>embed\<close> raises only when the fifth attempt ends
  in an exception (\<open>embed_exhausted\<close>): when the service answers all five attempts with
  status 429, \<open>embed\<close> returns \<open>None\<close> and raises nothing.
\<close>

theorem embed_rate_limited_returns_None:
  "fst (embed [''query''] rate_limited) = Inr None"
  by (rule embed_loop_rate_limited [of "[0..<5]" rate_limited, folded embed_def])
     (simp add: rate_limited_def)

section \<open>Chunking\<close>

lemma split_acc_words:
  "w = [] \<or> is_word w \<Longrightarrow> u \<in> set (split_acc w s) \<Longrightarrow> is_word u"
proof (induction s arbitrary: w)
  case Nil
  then show ?case by (auto split: if_splits)
next
  case (Cons c s)
  show ?case
  proof (cases "isspace c")
    case True
    with Cons.prems Cons.IH [of "[]"] show ?thesis
      by (auto split: if_splits)
  next
    case False
    have "is_word (w @ [c])"
      using Cons.prems(1) False by (auto simp: is_word_def)
    with Cons.prems False Cons.IH [of "w @ [c]"] show ?thesis
      by auto
  qed
qed

lemma py_split_words: "u \<in> set (py_split s) \<Longrightarrow> is_word u"
  unfolding py_split_def by (rule split_acc_words [of "[]"]) simp_all

lemma split_acc_append_word:
  "\<forall>c \<in> set u. \<not> isspace c \<Longrightarrow> split_acc w (u @ s) = split_acc (w @ u) s"
  by (induction u arbitrary: w) simp_all

lemma isspace_space: "isspace CHR '' ''"
  by (simp add: isspace_def)

lemma py_split_join: "\<forall>w \<in> set ws. is_word w \<Longrightarrow> py_split (join_sp ws) = ws"
proof (induction ws rule: join_sp.induct)
  case 1
  then show ?case by (simp add: py_split_def)
next
  case (2 w)
  then have "split_acc [] (w @ []) = split_acc ([] @ w) []"
    by (intro split_acc_append_word) (simp add: is_word_def)
  with 2 show ?case by (simp add: py_split_def is_word_def)
next
  case (3 w v ws)
  have "split_acc [] (w @ CHR '' '' # join_sp (v # ws)) = split_acc ([] @ w) (CHR '' '' # join_sp (v # ws))"
    using 3(2) by (intro split_acc_append_word) (simp add: is_word_def)
  also have "\<dots> = w # split_acc [] (join_sp (v # ws))"
    using 3(2) by (simp add: isspace_space is_word_def)
  finally show ?case
    using 3 by (simp add: py_split_def)
qed

lemma py_slice_window:
  "0 \<le> s \<Longrightarrow> s < int (length xs) \<Longrightarrow> 0 \<le> c \<Longrightarrow>
   py_slice xs s (min (s + c) (int (length xs))) = take (nat c) (drop (nat s) xs)"
  unfolding py_slice_def Let_def
  by (auto simp: min_def take_all_iff nat_le_iff not_le)

lemma window_loop_starts:
  assumes "0 < adv" and "adv = chunk_size self - overlap self" and "len = int (length words)"
  shows "window_loop self doc words start acc =
         Some (fst acc @ emit self doc words (snd acc) (window_starts adv len start),
               snd acc + length (window_starts adv len start))"
  using assms
proof (induction adv len start arbitrary: acc rule: window_starts.induct)
  case (1 adv len start)
  show ?case
  proof (cases "start < len")
    case True
    have step: "window_starts adv len start = start # window_starts adv len (start + adv)"
      using True "1.prems"(1) by (subst window_starts.simps) simp
    have "window_loop self doc words start acc =
          window_loop self doc words (start + adv)
            (fst acc @ [window_chunk self doc words (snd acc) start], Suc (snd acc))"
      using True "1.prems" by (subst window_loop.simps) simp
    also have "\<dots> = Some ((fst acc @ [window_chunk self doc words (snd acc) start]) @
                emit self doc words (Suc (snd acc)) (window_starts adv len (start + adv)),
              Suc (snd acc) + length (window_starts adv len (start + adv)))"
      using "1.IH" [of "(fst acc @ [window_chunk self doc words (snd acc) start], Suc (snd acc))"]
        True "1.prems"
      by simp
    finally show ?thesis
      by (simp add: step)
  next
    case False
    have stop: "window_starts adv len start = []"
      using False by (subst window_starts.simps) simp
    show ?thesis
      using False "1.prems" stop by (subst window_loop.simps) simp
  qed
qed

lemma window_loop_diverges:
  assumes "window_loop self doc words start acc = Some r"
  shows "overlap self < chunk_size self \<or> int (length words) \<le> start"
  using assms
proof (induction rule: window_loop.raw_induct [rotated 1, consumes 1])
  case (1 loop self doc words start acc r)
  show ?case
  proof (cases "start < int (length words)")
    case True
    with 1(2) have "loop self doc words (start + (chunk_size self - overlap self))
       (fst acc @ [window_chunk self doc words (snd acc) start], Suc (snd acc)) = Some r"
      by simp
    from 1(1) [OF this] True show ?thesis by auto
  next
    case False
    then show ?thesis by simp
  qed
qed

lemma length_emit: "length (emit self doc words cid ss) = length ss"
  by (induction ss arbitrary: cid) simp_all

lemma emit_nth:
  "j < length ss \<Longrightarrow> emit self doc words cid ss ! j = window_chunk self doc words (cid + j) (ss ! j)"
proof (induction ss arbitrary: cid j)
  case Nil
  then show ?case by simp
next
  case (Cons s ss)
  then show ?case by (cases j) simp_all
qed

lemma window_starts_nth:
  "j < length (window_starts adv len start) \<Longrightarrow>
   window_starts adv len start ! j = start + int j * adv \<and> start + int j * adv < len"
proof (induction adv len start arbitrary: j rule: window_starts.induct)
  case (1 adv len start)
  show ?case
  proof (cases "0 < adv \<and> start < len")
    case True
    then have step: "window_starts adv len start = start # window_starts adv len (start + adv)"
      by (subst window_starts.simps) simp
    show ?thesis
    proof (cases j)
      case 0
      with True show ?thesis by (simp add: step)
    next
      case (Suc k)
      with "1.prems" have "k < length (window_starts adv len (start + adv))"
        by (simp add: step)
      from "1.IH" [OF True this] Suc show ?thesis
        by (simp add: step algebra_simps)
    qed
  next
    case False
    then have "window_starts adv len start = []"
      by (subst window_starts.simps) auto
    with "1.prems" show ?thesis by simp
  qed
qed

lemma window_starts_cover:
  "0 < adv \<Longrightarrow> start \<le> p \<Longrightarrow> p < len \<Longrightarrow>
   \<exists>j < length (window_starts adv len start). start + int j * adv \<le> p \<and> p < start + int j * adv + adv"
proof (induction adv len start rule: window_starts.induct)
  case (1 adv len start)
  have lt: "start < len" using "1.prems" by simp
  then have step: "window_starts adv len start = start # window_starts adv len (start + adv)"
    using "1.prems" by (subst window_starts.simps) simp
  show ?case
  proof (cases "p < start + adv")
    case True
    then show ?thesis
      using "1.prems" by (intro exI [of _ 0]) (simp add: step)
  next
    case False
    then have "start + adv \<le> p" by simp
    from "1.IH" [OF _ "1.prems"(1) this "1.prems"(3)] lt "1.prems"(1)
    obtain j where j: "j < length (window_starts adv len (start + adv))"
      "start + adv + int j * adv \<le> p" "p < start + adv + int j * adv + adv"
      by auto
    show ?thesis
      using j by (intro exI [of _ "Suc j"]) (simp add: step algebra_simps)
  qed
qed

lemma window_chunk_words:
  assumes "\<forall>w \<in> set ws. is_word w" and "0 \<le> s" and "s < int (length ws)" and "0 \<le> chunk_size self"
  shows "py_split (chunk_text (window_chunk self doc ws cid s)) = take (nat (chunk_size self)) (drop (nat s) ws)"
proof -
  have "set (take (nat (chunk_size self)) (drop (nat s) ws)) \<subseteq> set ws"
    by (meson set_drop_subset set_take_subset subset_trans)
  with assms(1) have "\<forall>w \<in> set (take (nat (chunk_size self)) (drop (nat s) ws)). is_word w"
    by blast
  then show ?thesis
    using assms by (simp add: window_chunk_def py_slice_window py_split_join)
qed

lemma shares_boundary_windows:
  assumes "n \<le> c" and "length (take c (drop s ws)) = c" and "s + (c - n) < length ws"
  shows "shares_boundary n (take c (drop s ws)) (take c (drop (s + (c - n)) ws))"
proof -
  have full: "s + c \<le> length ws"
    using assms(2,3) by (cases "c = 0") (auto simp: min_def split: if_splits)
  have "drop (c - n) (take c (drop s ws)) = take n (drop (s + (c - n)) ws)"
    using assms(1) by (simp add: drop_take add.commute)
  moreover have "take n (take c (drop (s + (c - n)) ws)) = take n (drop (s + (c - n)) ws)"
    using assms(1) by (simp add: min_def)
  moreover have "n \<le> length (take c (drop (s + (c - n)) ws))"
    using assms(1) full by simp
  ultimately show ?thesis
    using assms(1,2) unfolding shares_boundary_def by simp
qed

lemma documents_loop_groups:
  assumes "overlap self < chunk_size self"
  shows "documents_loop self docs acc =
         Some (fst acc @ concat (chunk_groups self (snd acc) docs),
               snd acc + length (concat (chunk_groups self (snd acc) docs)))"
proof (induction docs arbitrary: acc)
  case Nil
  then show ?case by simp
next
  case (Cons d ds)
  show ?case
  proof (cases "int (length (py_split (d_content d))) \<le> chunk_size self")
    case True
    then show ?thesis
      using Cons.IH [of "(fst acc @ [whole_chunk d (snd acc)], Suc (snd acc))"]
      by (simp add: doc_chunks_def)
  next
    case False
    let ?g = "emit self d (py_split (d_content d)) (snd acc)
             (window_starts (chunk_size self - overlap self) (int (length (py_split (d_content d)))) 0)"
    have "window_loop self d (py_split (d_content d)) 0 acc = Some (fst acc @ ?g, snd acc + length ?g)"
      using window_loop_starts [of "chunk_size self - overlap self" self _ "py_split (d_content d)" d 0 acc] assms
      by (simp add: length_emit)
    then show ?thesis
      using False Cons.IH [of "(fst acc @ ?g, snd acc + length ?g)"]
      by (simp add: doc_chunks_def add.assoc)
  qed
qed

lemma length_chunk_groups: "length (chunk_groups self cid docs) = length docs"
  by (induction docs arbitrary: cid) simp_all

lemma chunk_groups_nth:
  "i < length docs \<Longrightarrow> \<exists>k. chunk_groups self cid docs ! i = doc_chunks self (docs ! i) k"
proof (induction docs arbitrary: cid i)
  case Nil
  then show ?case by simp
next
  case (Cons d ds)
  then show ?case by (cases i) auto
qed

lemma doc_chunks_nth:
  assumes ov0: "0 \<le> overlap self" and ov: "overlap self < chunk_size self" and long: "chunk_size self < int (length ws)"
    and ws: "ws = py_split (d_content doc)"
    and j: "j < length (doc_chunks self doc cid)"
  shows "chunk_words (doc_chunks self doc cid) ! j =
           take (nat (chunk_size self)) (drop (j * nat (chunk_size self - overlap self)) ws)
         \<and> j * nat (chunk_size self - overlap self) < length ws"
proof -
  let ?adv = "chunk_size self - overlap self"
  let ?starts = "window_starts ?adv (int (length ws)) 0"
  have dc: "doc_chunks self doc cid = emit self doc ws cid ?starts"
    using long ws by (simp add: doc_chunks_def)
  have j': "j < length ?starts"
    using j by (simp add: dc length_emit)
  from window_starts_nth [OF j'] have nth: "?starts ! j = int j * ?adv" and lt: "int j * ?adv < int (length ws)"
    by simp_all
  have eq: "nat (int j * ?adv) = j * nat ?adv"
    using ov by (simp add: nat_mult_distrib)
  have clean: "\<forall>w \<in> set ws. is_word w"
    using ws py_split_words by blast
  have nonneg: "0 \<le> int j * ?adv" using ov by simp
  have cs0: "0 \<le> chunk_size self" using ov0 ov by linarith
  have "chunk_words (doc_chunks self doc cid) ! j =
        py_split (chunk_text (window_chunk self doc ws (cid + j) (int j * ?adv)))"
    using j j' by (simp add: chunk_words_def dc emit_nth nth)
  also have "\<dots> = take (nat (chunk_size self)) (drop (nat (int j * ?adv)) ws)"
    using clean nonneg lt cs0 by (rule window_chunk_words)
  finally show ?thesis
    using lt nonneg unfolding eq [symmetric] by (simp add: nat_less_iff)
qed

lemma doc_chunks_boundary:
  assumes ov0: "0 \<le> overlap self" and ov: "overlap self < chunk_size self"
    and long: "chunk_size self < int (length ws)" and ws: "ws = py_split (d_content doc)"
    and j: "Suc j < length (doc_chunks self doc cid)"
    and full: "int (length (chunk_words (doc_chunks self doc cid) ! j)) = chunk_size self"
  shows "shares_boundary (nat (overlap self)) (chunk_words (doc_chunks self doc cid) ! j)
           (chunk_words (doc_chunks self doc cid) ! Suc j)"
proof -
  let ?c = "nat (chunk_size self)" and ?n = "nat (overlap self)"
  let ?a = "nat (chunk_size self - overlap self)"
  have a: "?a = ?c - ?n" using ov0 ov by (simp add: nat_diff_distrib)
  from j have j0: "j < length (doc_chunks self doc cid)" by simp
  note A = doc_chunks_nth [OF ov0 ov long ws j0]
  note B = doc_chunks_nth [OF ov0 ov long ws j]
  have len: "length (take ?c (drop (j * ?a) ws)) = ?c"
    using full A by simp
  have "shares_boundary ?n (take ?c (drop (j * ?a) ws)) (take ?c (drop (j * ?a + (?c - ?n)) ws))"
  proof (rule shares_boundary_windows)
    show "?n \<le> ?c" using ov by simp
    show "length (take ?c (drop (j * ?a) ws)) = ?c" by (rule len)
    show "j * ?a + (?c - ?n) < length ws" using B a by simp
  qed
  then show ?thesis
    using A B a by (simp add: add.commute)
qed

lemma doc_chunks_cover:
  assumes ov0: "0 \<le> overlap self" and ov: "overlap self < chunk_size self"
    and long: "chunk_size self < int (length ws)" and ws: "ws = py_split (d_content doc)"
  shows "set ws \<subseteq> \<Union> (set ` set (chunk_words (doc_chunks self doc cid)))"
proof
  fix w assume "w \<in> set ws"
  then obtain p where p: "p < length ws" "ws ! p = w"
    by (auto simp: in_set_conv_nth)
  let ?adv = "chunk_size self - overlap self"
  let ?starts = "window_starts ?adv (int (length ws)) 0"
  have dc: "doc_chunks self doc cid = emit self doc ws cid ?starts"
    using long ws by (simp add: doc_chunks_def)
  from window_starts_cover [of ?adv 0 "int p" "int (length ws)"] ov p(1)
  obtain j where j: "j < length ?starts" "int j * ?adv \<le> int p" "int p < int j * ?adv + ?adv"
    by auto
  have jd: "j < length (doc_chunks self doc cid)"
    using j(1) by (simp add: dc length_emit)
  note A = doc_chunks_nth [OF ov0 ov long ws jd]
  let ?s = "j * nat ?adv"
  have eq: "int ?s = int j * ?adv" using ov by simp
  have lo: "?s \<le> p" using j(2) eq by linarith
  have hi: "p - ?s < nat (chunk_size self)" using j(3) eq ov0 lo by linarith
  have "take (nat (chunk_size self)) (drop ?s ws) ! (p - ?s) = ws ! p"
    using lo hi p(1) by simp
  moreover have "p - ?s < length (take (nat (chunk_size self)) (drop ?s ws))"
    using lo hi p(1) by simp
  ultimately have "w \<in> set (take (nat (chunk_size self)) (drop ?s ws))"
    using p(2) by (metis nth_mem)
  then have "w \<in> set (chunk_words (doc_chunks self doc cid) ! j)"
    using A by simp
  moreover have "chunk_words (doc_chunks self doc cid) ! j \<in> set (chunk_words (doc_chunks self doc cid))"
    using jd by (simp add: chunk_words_def)
  ultimately show "w \<in> \<Union> (set ` set (chunk_words (doc_chunks self doc cid)))"
    by blast
qed

text \<open>
  C3, as the code has it. With \<open>0 \<le> overlap < chunk_size\<close> the chunker returns, and its
  output is the concatenation of one group of chunks per document. For a document with more
  than \<open>chunk_size\<close> words, the words of the \<open>j\<close>-th chunk of its group are the window of
  \<open>chunk_size\<close> words starting at word \<open>j * (chunk_size - overlap)\<close>, cut at the end of the
  document; whenever a chunk is a full window of \<open>chunk_size\<close> words and another chunk
  follows, its last \<open>overlap\<close> words are the first \<open>overlap\<close> words of that next chunk;
  and every word of the document occurs in some chunk of the group.
\<close>

theorem chunk_documents_windows:
  assumes "0 \<le> overlap self" and "overlap self < chunk_size self"
  shows "\<exists>groups. chunk_documents self docs = Some (concat groups) \<and> length groups = length docs \<and>
     (\<forall>i < length docs. chunk_size self < int (length (py_split (d_content (docs ! i)))) \<longrightarrow>
        (\<forall>j < length (groups ! i). chunk_words (groups ! i) ! j =
            take (nat (chunk_size self)) (drop (j * nat (chunk_size self - overlap self))
              (py_split (d_content (docs ! i))))) \<and>
        (\<forall>j. Suc j < length (groups ! i) \<longrightarrow>
            int (length (chunk_words (groups ! i) ! j)) = chunk_size self \<longrightarrow>
            shares_boundary (nat (overlap self)) (chunk_words (groups ! i) ! j)
              (chunk_words (groups ! i) ! Suc j)) \<and>
        set (py_split (d_content (docs ! i))) \<subseteq> \<Union> (set ` set (chunk_words (groups ! i))))"
proof (intro exI conjI allI impI)
  show "chunk_documents self docs = Some (concat (chunk_groups self 0 docs))"
    using documents_loop_groups [OF assms(2), of docs "([], 0)"] by (simp add: chunk_documents_def)
  show "length (chunk_groups self 0 docs) = length docs"
    by (rule length_chunk_groups)
next
  fix i assume i: "i < length docs"
    and long: "chunk_size self < int (length (py_split (d_content (docs ! i))))"
  from chunk_groups_nth [OF i] obtain k where
    g: "chunk_groups self 0 docs ! i = doc_chunks self (docs ! i) k" by blast
  {
    fix j assume "j < length (chunk_groups self 0 docs ! i)"
    then show "chunk_words (chunk_groups self 0 docs ! i) ! j =
            take (nat (chunk_size self)) (drop (j * nat (chunk_size self - overlap self))
              (py_split (d_content (docs ! i))))"
      using doc_chunks_nth [OF assms long refl, of j k] g by simp
  }
  {
    fix j assume "Suc j < length (chunk_groups self 0 docs ! i)"
      and "int (length (chunk_words (chunk_groups self 0 docs ! i) ! j)) = chunk_size self"
    then show "shares_boundary (nat (overlap self)) (chunk_words (chunk_groups self 0 docs ! i) ! j)
              (chunk_words (chunk_groups self 0 docs ! i) ! Suc j)"
      using doc_chunks_boundary [OF assms long refl, of j k] g by simp
  }
  show "set (py_split (d_content (docs ! i))) \<subseteq> \<Union> (set ` set (chunk_words (chunk_groups self 0 docs ! i)))"
    using doc_chunks_cover [OF assms long refl, of k] g by simp
qed

text \<open>
  The restriction to full windows is needed. With \<open>chunk_size = 3\<close> and \<open>overlap = 2\<close>
  the four words \<open>a b c d\<close> give the chunks \<open>a b c\<close>, \<open>b c d\<close>, \<open>c d\<close> and \<open>d\<close>: the
  loop goes on while \<open>start\<close> is inside the document, so a window cut short by the end of
  the document is followed by further, shorter ones, and the last two chunks share one
  word, not two. (With the defaults 300 and 50 the same happens for a document of 520
  words: the windows start at 0, 250 and 500, and the last two share 20 words.)
\<close>

theorem chunk_overlap_counterexample:
  "chunk_size (DocumentChunker_init 3 2) < int (length (py_split (d_content four_words))) \<and>
   map_option chunk_words (chunk_documents (DocumentChunker_init 3 2) [four_words]) =
     Some [[''a'', ''b'', ''c''], [''b'', ''c'', ''d''], [''c'', ''d''], [''d'']] \<and>
   \<not> shares_boundary (nat (overlap (DocumentChunker_init 3 2))) [''c'', ''d''] [''d'']"
  by code_simp

theorem chunk_documents_windows_witness:
  "0 \<le> overlap (DocumentChunker_init 3 2) \<and>
   overlap (DocumentChunker_init 3 2) < chunk_size (DocumentChunker_init 3 2) \<and>
   chunk_size (DocumentChunker_init 3 2) < int (length (py_split (d_content four_words))) \<and>
   shares_boundary 2 [''a'', ''b'', ''c''] [''b'', ''c'', ''d''] \<and>
   set (py_split ''a b c d'') \<subseteq> set [''a'', ''b'', ''c''] \<union> set [''b'', ''c'', ''d''] \<union> set [''c'', ''d''] \<union> set [''d'']"
proof -
  let ?C = "DocumentChunker_init 3 2"
  have h1: "0 \<le> overlap ?C" and h2: "overlap ?C < chunk_size ?C"
    by (simp_all add: DocumentChunker_init_def)
  have long: "chunk_size ?C < int (length (py_split (d_content four_words)))"
    by code_simp
  have run: "map_option chunk_words (chunk_documents ?C [four_words]) =
     Some [[''a'', ''b'', ''c''], [''b'', ''c'', ''d''], [''c'', ''d''], [''d'']]"
    by code_simp
  from chunk_documents_windows [OF h1 h2, of "[four_words]"] obtain groups where
    g1: "chunk_documents ?C [four_words] = Some (concat groups)" and g2: "length groups = 1"
    and g3: "\<forall>i < 1. chunk_size ?C < int (length (py_split (d_content ([four_words] ! i)))) \<longrightarrow>
        (\<forall>j < length (groups ! i). chunk_words (groups ! i) ! j =
            take (nat (chunk_size ?C)) (drop (j * nat (chunk_size ?C - overlap ?C))
              (py_split (d_content ([four_words] ! i))))) \<and>
        (\<forall>j. Suc j < length (groups ! i) \<longrightarrow>
            int (length (chunk_words (groups ! i) ! j)) = chunk_size ?C \<longrightarrow>
            shares_boundary (nat (overlap ?C)) (chunk_words (groups ! i) ! j)
              (chunk_words (groups ! i) ! Suc j)) \<and>
        set (py_split (d_content ([four_words] ! i))) \<subseteq> \<Union> (set ` set (chunk_words (groups ! i)))"
    by auto
  from g2 obtain g where g: "groups = [g]"
    by (cases groups) auto
  have cw: "chunk_words g = [[''a'', ''b'', ''c''], [''b'', ''c'', ''d''], [''c'', ''d''], [''d'']]"
    using run g1 g by simp
  then have "length (chunk_words g) = 4"
    by simp
  then have len: "length g = 4"
    by (simp add: chunk_words_def)
  have i0: "(0::nat) < 1" by simp
  have gi: "groups ! 0 = g" using g by simp
  have long0: "chunk_size ?C < int (length (py_split (d_content ([four_words] ! 0))))"
    using long by simp
  note P = g3 [rule_format, OF i0 long0, unfolded gi]
  have first_full: "int (length (chunk_words g ! 0)) = chunk_size ?C"
    by (simp add: cw DocumentChunker_init_def)
  have "shares_boundary (nat (overlap ?C)) (chunk_words g ! 0) (chunk_words g ! Suc 0)"
    using P [THEN conjunct2, THEN conjunct1, rule_format, of 0] first_full
    by (simp add: len)
  then have "shares_boundary 2 [''a'', ''b'', ''c''] [''b'', ''c'', ''d'']"
    by (simp add: cw DocumentChunker_init_def)
  moreover from P [THEN conjunct2, THEN conjunct2]
  have "set (py_split ''a b c d'') \<subseteq> set [''a'', ''b'', ''c''] \<union> set [''b'', ''c'', ''d''] \<union> set [''c'', ''d''] \<union> set [''d'']"
    unfolding cw by (auto simp: four_words_def)
  ultimately show ?thesis
    using h1 h2 long by blast
qed

subsection \<open>Configurations with no positive advance\<close>

lemma window_loop_empty: "window_loop self doc [] 0 acc = Some acc"
  by (subst window_loop.simps) simp

lemma documents_loop_stuck:
  assumes "chunk_size self \<le> overlap self" and "documents_loop self docs acc = Some r"
  shows "\<forall>d \<in> set docs. int (length (py_split (d_content d))) \<le> chunk_size self \<or> py_split (d_content d) = []"
  using assms(2)
proof (induction docs arbitrary: acc)
  case Nil
  then show ?case by simp
next
  case (Cons d ds)
  show ?case
  proof (cases "int (length (py_split (d_content d))) \<le> chunk_size self")
    case True
    with Cons show ?thesis by auto
  next
    case False
    with Cons.prems obtain acc' where
      w: "window_loop self d (py_split (d_content d)) 0 acc = Some acc'"
      and r: "documents_loop self ds acc' = Some r"
      by (auto split: option.splits)
    from window_loop_diverges [OF w] assms(1) have "py_split (d_content d) = []"
      by simp
    with Cons.IH [OF r] show ?thesis by simp
  qed
qed

lemma documents_loop_whole:
  assumes "list_all (\<lambda>d. word_count d \<le> chunk_size self \<or> word_count d = 0) docs"
  shows "documents_loop self docs acc =
         Some (fst acc @ whole_chunks (snd acc) (filter (\<lambda>d. word_count d \<le> chunk_size self) docs),
               snd acc + length (filter (\<lambda>d. word_count d \<le> chunk_size self) docs))"
  using assms
proof (induction docs arbitrary: acc)
  case Nil
  then show ?case by simp
next
  case (Cons d ds)
  from Cons.prems have rest: "list_all (\<lambda>d. word_count d \<le> chunk_size self \<or> word_count d = 0) ds"
    by simp
  note ih = Cons.IH [OF rest]
  show ?case
  proof (cases "word_count d \<le> chunk_size self")
    case True
    then show ?thesis
      using ih [of "(fst acc @ [whole_chunk d (snd acc)], Suc (snd acc))"]
      by (simp add: word_count_def)
  next
    case False
    with Cons.prems have "py_split (d_content d) = []"
      by (simp add: word_count_def)
    with False show ?thesis
      using ih [of acc] by (simp add: window_loop_empty word_count_def)
  qed
qed

text \<open>
  C9, as the code has it. Neither \<open>__init__\<close> nor \<open>chunk_documents\<close> compares \<open>overlap\<close>
  with \<open>chunk_size\<close>: every configuration is constructed, and nothing raises. When
  \<open>overlap \<ge> chunk_size\<close>, \<open>chunk_documents\<close> returns exactly when no document needs the
  window loop to make a round, that is, when every document has at most \<open>chunk_size\<close>
  words or no word at all. It then returns, numbered from 0, one chunk holding the whole
  content for each document of at most \<open>chunk_size\<close> words, and nothing for a document
  without words when \<open>chunk_size\<close> is negative. On any other input the loop never ends.
\<close>

theorem chunking_without_validation:
  assumes "cs \<le> ov"
  shows "chunk_documents (DocumentChunker_init cs ov) docs =
         (if list_all (\<lambda>d. word_count d \<le> cs \<or> word_count d = 0) docs
          then Some (whole_chunks 0 (filter (\<lambda>d. word_count d \<le> cs) docs))
          else None)"
proof (cases "list_all (\<lambda>d. word_count d \<le> cs \<or> word_count d = 0) docs")
  case True
  then show ?thesis
    using documents_loop_whole [of "DocumentChunker_init cs ov" docs "([], 0)"]
    by (simp add: chunk_documents_def DocumentChunker_init_def)
next
  case False
  have "documents_loop (DocumentChunker_init cs ov) docs ([], 0) = None"
  proof (rule ccontr)
    assume "documents_loop (DocumentChunker_init cs ov) docs ([], 0) \<noteq> None"
    then obtain r where "documents_loop (DocumentChunker_init cs ov) docs ([], 0) = Some r"
      by auto
    from documents_loop_stuck [OF _ this] assms False show False
      by (simp add: DocumentChunker_init_def list_all_iff word_count_def)
  qed
  with False show ?thesis
    by (simp add: chunk_documents_def)
qed

theorem chunking_without_validation_witness:
  "(3::int) \<le> 3 \<and> (- 1::int) \<le> 5 \<and>
   chunk_documents (DocumentChunker_init 3 3) [four_words] = None \<and>
   chunk_documents (DocumentChunker_init 3 3) [three_words, three_words] =
     Some [whole_chunk three_words 0, whole_chunk three_words 1] \<and>
   chunk_documents (DocumentChunker_init (- 1) 5) [blank_doc] = Some []"
proof -
  have h: "(3::int) \<le> 3" and h': "(- 1::int) \<le> 5"
    by simp_all
  have wc: "word_count four_words = 4" "word_count three_words = 3" "word_count blank_doc = 0"
    by (simp_all add: word_count_def four_words_def three_words_def blank_doc_def
        py_split_def isspace_def)
  from chunking_without_validation [OF h, of "[four_words]"]
    chunking_without_validation [OF h, of "[three_words, three_words]"]
    chunking_without_validation [OF h', of "[blank_doc]"] wc
  show ?thesis
    by simp
qed

text \<open>
  A chunker with \<open>overlap = chunk_size = 3\<close> is constructed and chunks a three-word
  document into its single chunk.
\<close>

theorem chunker_validation_counterexample:
  "chunk_size (DocumentChunker_init 3 3) \<le> overlap (DocumentChunker_init 3 3) \<and>
   DocumentChunker_init 3 3 = \<lparr>chunk_size = 3, overlap = 3\<rparr> \<and>
   chunk_documents (DocumentChunker_init 3 3) [three_words] = Some [whole_chunk three_words 0]"
  by code_simp

section \<open>Index construction and search\<close>




lemma embed_loop_length:
  "fst (embed_loop as texts w) = Inr (Some vs) \<Longrightarrow> length vs = length texts"
proof (induction as arbitrary: w)
  case Nil
  then show ?case by simp
next
  case (Cons a as)
  then show ?case
    by (cases "embed_reply w (embed_posts w)")
       (auto simp: post_embed_def split: if_splits)
qed









subsection \<open>What search returns over a built store\<close>

lemma set_rank_insert: "set (rank_insert t x ys) = insert x (set ys)"
  by (induction ys) auto

lemma length_rank_insert: "length (rank_insert t x ys) = Suc (length ys)"
  by (induction ys) auto

lemma sorted_rank_insert:
  assumes "sorted_wrt (\<lambda>a b. fst b \<le> fst a) ys"
  shows "sorted_wrt (\<lambda>a b. fst b \<le> fst a) (rank_insert t x ys)"
  using assms
proof (induction ys)
  case Nil
  then show ?case by simp
next
  case (Cons y ys)
  show ?case
  proof (cases "fst y < fst x \<or> (fst y = fst x \<and> t (snd x) (snd y))")
    case True
    then have yx: "fst y \<le> fst x" by auto
    have "fst z \<le> fst x" if "z \<in> set (y # ys)" for z
    proof -
      have "fst z \<le> fst y"
        using that Cons.prems by auto
      from this yx show ?thesis by (rule order_trans)
    qed
    with True Cons.prems show ?thesis by simp
  next
    case False
    then have "fst x \<le> fst y" by auto
    with False Cons show ?thesis
      by (auto simp: set_rank_insert)
  qed
qed

lemma ranked_snoc:
  "ranked fo (xb @ [v]) q =
     rank_insert (tie_first fo) (inner_product fo q v, int (length xb)) (ranked fo xb q)"
  by (simp add: ranked_def)

lemma ranked_props:
  "sorted_wrt (\<lambda>a b. fst b \<le> fst a) (ranked fo xb q) \<and> length (ranked fo xb q) = length xb \<and>
   snd ` set (ranked fo xb q) = int ` {0..<length xb}"
proof (induction xb rule: rev_induct)
  case Nil
  then show ?case by (simp add: ranked_def)
next
  case (snoc v xb)
  then show ?case
    by (auto simp: ranked_snoc sorted_rank_insert length_rank_insert set_rank_insert
        atLeast0_lessThan_Suc)
qed

lemma py_index_in_range:
  assumes "- 1 \<le> i" and "i < int (length xs)" and "xs \<noteq> []"
  shows "\<exists>x. py_index xs i = Inr x"
  using assms by (cases xs) (auto simp: py_index_def Let_def)

lemma collect_all:
  assumes "cs \<noteq> []" and "\<forall>p \<in> set ps. - 1 \<le> snd p \<and> snd p < int (length cs)"
  shows "\<exists>results. collect cs ps = Inr results \<and> map relevance_score results = map fst ps"
  using assms(2)
proof (induction ps)
  case Nil
  then show ?case by simp
next
  case (Cons p ps)
  obtain score idx where p: "p = (score, idx)" by (cases p)
  from Cons.prems p have r: "- 1 \<le> idx" "idx < int (length cs)" by simp_all
  from py_index_in_range [OF r assms(1)] obtain c where c: "py_index cs idx = Inr c" ..
  from Cons obtain results where "collect cs ps = Inr results"
    "map relevance_score results = map fst ps" by auto
  with p r c show ?case by (simp add: with_score_def)
qed

lemma IndexFlatIP_search_props:
  "length (IndexFlatIP_search fo ix q k) = k \<and>
   (\<forall>p \<in> set (IndexFlatIP_search fo ix q k). - 1 \<le> snd p \<and> snd p < int (length (index_xb ix)))"
proof -
  note rp = ranked_props [of fo "index_xb ix" q]
  have inr: "snd p < int (length (index_xb ix)) \<and> 0 \<le> snd p" if "p \<in> set (ranked fo (index_xb ix) q)" for p
  proof -
    from that have "snd p \<in> int ` {0..<length (index_xb ix)}"
      using rp by blast
    then show ?thesis by auto
  qed
  have "- 1 \<le> snd p \<and> snd p < int (length (index_xb ix))"
    if "p \<in> set (take k (ranked fo (index_xb ix) q))" for p
    using inr [OF in_set_takeD [OF that]] by linarith
  moreover have "length (IndexFlatIP_search fo ix q k) = k"
    using rp by (simp add: IndexFlatIP_search_def)
  ultimately show ?thesis
    by (auto simp: IndexFlatIP_search_def)
qed

text \<open>
  Over a built store with as many vectors as chunks, at least one, \<open>search\<close> with a
  positive \<open>k\<close> returns exactly \<open>k\<close> results as soon as the query is embedded, also when
  \<open>k\<close> exceeds the number of chunks.
\<close>

lemma search_returns_k:
  assumes "index self = Some ix" and "index_d ix = dim fo" and "0 < top_k"
    and "chunks self \<noteq> []" and "length (index_xb ix) = length (chunks self)"
    and "fst (embed [query] w) = Inr (Some vs)"
  shows "\<exists>results. fst (search fo query top_k self w) = Inr results \<and> length results = nat top_k"
proof -
  from assms(6) have "length vs = 1"
    using embed_loop_length [of "[0..<5]" "[query]" w vs] by (simp add: embed_def)
  then obtain q where vs: "vs = [q]"
    by (cases vs) auto
  let ?ps = "IndexFlatIP_search fo ix (normalize_L2 fo q) (nat top_k)"
  from IndexFlatIP_search_props [of fo ix "normalize_L2 fo q" "nat top_k"] assms(5)
  have len: "length ?ps = nat top_k"
    and rng: "\<forall>p \<in> set ?ps. - 1 \<le> snd p \<and> snd p < int (length (chunks self))"
    by simp_all
  from collect_all [OF assms(4) rng] obtain results where
    c: "collect (chunks self) ?ps = Inr results" and m: "map relevance_score results = map fst ?ps"
    by blast
  from m have "length results = length ?ps"
    by (metis length_map)
  with c len assms(1-3,6) vs show ?thesis
    by (cases "embed [query] w") (simp add: search_def)
qed

text \<open>
  The scores of the results are in non-increasing order, provided no inner product is
  below the lowest float.
\<close>

lemma sorted_wrt_replicate_refl: "P x x \<Longrightarrow> sorted_wrt P (replicate n x)"
  by (induction n) simp_all

lemma IndexFlatIP_search_sorted:
  assumes "\<forall>v \<in> set (index_xb ix). lowest fo \<le> inner_product fo q v"
  shows "sorted_wrt (\<lambda>a b. b \<le> a) (map fst (IndexFlatIP_search fo ix q k))"
proof -
  let ?r = "ranked fo (index_xb ix) q"
  have "sorted_wrt (\<lambda>a b. fst b \<le> fst a) ?r"
    using ranked_props [of fo "index_xb ix" q] by simp
  then have s: "sorted_wrt (\<lambda>a b. fst b \<le> fst a) (take k ?r)"
    by (rule sorted_wrt_take)
  have "fst ` set ?r \<subseteq> inner_product fo q ` set (index_xb ix)"
  proof (induction "index_xb ix" arbitrary: ix rule: rev_induct)
    case Nil
    then show ?case by (simp add: ranked_def)
  next
    case (snoc v xb)
    from snoc(1) [of "\<lparr>index_d = 0, index_xb = xb\<rparr>"] snoc(2) [symmetric] show ?case
      by (auto simp: ranked_snoc set_rank_insert)
  qed
  then have sub: "fst ` set ?r \<subseteq> inner_product fo q ` set (index_xb ix)" .
  have low: "\<forall>p \<in> set (take k ?r). lowest fo \<le> fst p"
  proof
    fix p assume "p \<in> set (take k ?r)"
    then have "p \<in> set ?r" by (rule in_set_takeD)
    then have "fst p \<in> inner_product fo q ` set (index_xb ix)"
      using sub by blast
    then obtain v where "v \<in> set (index_xb ix)" "fst p = inner_product fo q v"
      by blast
    with assms show "lowest fo \<le> fst p" by simp
  qed
  have "sorted_wrt (\<lambda>a b. fst b \<le> fst a)
          (take k ?r @ replicate (k - length (index_xb ix)) (lowest fo, - 1))"
    using s low by (auto simp: sorted_wrt_append sorted_wrt_replicate_refl)
  then show ?thesis
    unfolding IndexFlatIP_search_def sorted_wrt_map .
qed

text \<open>
  C2. An index built from a single chunk, searched with \<open>k = 5\<close>: faiss returns one
  real result and four missing results with label \<open>-1\<close>. The guard
  \<open>idx < len(self.chunks)\<close> lets \<open>-1\<close> pass, and \<open>self.chunks[-1]\<close> is the last chunk,
  so \<open>search\<close> returns five results for a store of one chunk.
\<close>

theorem search_pads_with_last_chunk:
  "fst (build_index unit_ops one_chunk (VectorStore_init, steady)) = Inr () \<and>
   length (chunks (fst (snd (build_index unit_ops one_chunk (VectorStore_init, steady))))) = 1 \<and>
   map_sum id (map (\<lambda>r. (chunk_id r, relevance_score r)))
     (fst (search unit_ops ''query'' TOP_K
        (fst (snd (build_index unit_ops one_chunk (VectorStore_init, steady)))) steady))
   = Inr [(0, 1), (0, - 1000), (0, - 1000), (0, - 1000), (0, - 1000)]"
  by code_simp

section \<open>The revision threshold\<close>

lemma bit_length_bounds:
  "n \<noteq> 0 \<Longrightarrow> 2 ^ (bit_length n - 1) \<le> n \<and> n < 2 ^ bit_length n"
proof (induction n rule: bit_length.induct)
  case (1 n)
  show ?case
  proof (cases "n div 2 = 0")
    case True
    with "1.prems" have "n = 1" by (simp add: div_eq_0_iff) 
    then show ?thesis
      by (simp add: bit_length.simps [of "Suc 0"] bit_length.simps [of 0])
  next
    case False
    from "1.IH" [OF "1.prems" False]
    have lo: "2 ^ (bit_length (n div 2) - 1) \<le> n div 2" and hi: "n div 2 < 2 ^ bit_length (n div 2)"
      by simp_all
    have pos: "bit_length (n div 2) \<noteq> 0"
      using False by (simp add: bit_length.simps [of "n div 2"])
    have bl: "bit_length n = Suc (bit_length (n div 2))"
      using "1.prems" by (simp add: bit_length.simps [of n])
    have "(2::nat) ^ bit_length (n div 2) = 2 * 2 ^ (bit_length (n div 2) - 1)"
      using pos by (cases "bit_length (n div 2)") simp_all
    then have "(2::nat) ^ bit_length (n div 2) \<le> 2 * (n div 2)"
      using lo by simp
    also have "\<dots> \<le> n" by simp
    finally have A: "(2::nat) ^ (bit_length n - 1) \<le> n" by (simp add: bl)
    have "n < 2 * 2 ^ bit_length (n div 2)"
      using hi by linarith
    then show ?thesis using A by (simp add: bl)
  qed
qed

lemma bit_length_le: "n < 2 ^ k \<Longrightarrow> bit_length n \<le> k"
proof (cases "n = 0")
  case True
  then show ?thesis by (simp add: bit_length.simps [of 0])
next
  case False
  assume "n < 2 ^ k"
  with bit_length_bounds [OF False] have "(2::nat) ^ (bit_length n - 1) < 2 ^ k"
    by linarith
  then have "bit_length n - 1 < k"
    by (simp add: power_strict_increasing_iff)
  then show ?thesis by linarith
qed


lemma round_to_double_small: "x < 2 ^ 53 \<Longrightarrow> round_to_double x = x"
  using bit_length_le [of x 53] by (simp add: round_to_double_def)

lemma round_to_double_cases:
  assumes "53 < bit_length x"
  defines "s \<equiv> bit_length x - 53"
  shows "(round_to_double x = (x div 2 ^ s) * 2 ^ s \<or>
          (round_to_double x = (x div 2 ^ s + 1) * 2 ^ s \<and> x mod 2 ^ s \<noteq> 0))
         \<and> 2 ^ (s + 52) \<le> x"
proof -
  have x0: "x \<noteq> 0"
  proof
    assume "x = 0"
    then have "bit_length x = 0" by (simp add: bit_length.simps [of 0])
    with assms(1) show False by simp
  qed
  have "bit_length x - 1 = s + 52"
    using assms(1) by (simp add: s_def)
  with bit_length_bounds [OF x0] have big: "2 ^ (s + 52) \<le> x"
    by simp
  have up: "x mod 2 ^ s \<noteq> 0" if "\<not> x mod 2 ^ s < 2 ^ (s - 1)"
    using that by (cases "x mod 2 ^ s = 0") simp_all
  show ?thesis
    using assms(1) big up unfolding round_to_double_def Let_def s_def [symmetric]
    by auto
qed

lemma seven_tenths_identity: "10 * (n * SEVEN_TENTHS) + 2 * n = 7 * n * 2 ^ 52"
  by (simp add: SEVEN_TENTHS_def)


text \<open>
  For a draft of at most \<open>2^48\<close> words the floating-point test is the exact comparison
  \<open>7 * draft \<le> 10 * revision\<close> of the two word counts.
\<close>

lemma revision_accepted_iff:
  assumes "n \<le> 2 ^ 48"
  shows "revision_accepted m n = (7 * n \<le> 10 * m)"
proof -
  define P where "P = (2::nat) ^ 52"
  define N where "N = n * SEVEN_TENTHS"
  define M where "M = m * P"
  have rn: "round_to_double n = n"
    using assms by (intro round_to_double_small) simp
  have id: "10 * N + 2 * n = 7 * (n * P)"
    using seven_tenths_identity [of n] by (simp add: N_def P_def)
  have small: "12 * n < P"
    using assms by (simp add: P_def)
  have acc: "revision_accepted m n = (round_to_double N \<le> M)"
    by (simp add: revision_accepted_def rn N_def M_def P_def)
  have le_imp: "N \<le> M" if "7 * n \<le> 10 * m"
  proof -
    from that have "(7 * n) * P \<le> (10 * m) * P"
      by (rule mult_le_mono1)
    then have "7 * (n * P) \<le> 10 * (m * P)"
      by (simp only: mult.assoc)
    with id show ?thesis unfolding M_def by linarith
  qed
  have gt_imp: "10 * M + P \<le> 10 * N + 2 * n" if "\<not> 7 * n \<le> 10 * m"
  proof -
    from that have "10 * m + 1 \<le> 7 * n" by simp
    then have "(10 * m + 1) * P \<le> (7 * n) * P"
      by (rule mult_le_mono1)
    then have "10 * (m * P) + P \<le> 7 * (n * P)"
      by (simp only: distrib_right mult.assoc mult_1)
    with id show ?thesis unfolding M_def by linarith
  qed
  show ?thesis
  proof (cases "bit_length N \<le> 53")
    case True
    then have "round_to_double N = N"
      by (simp add: round_to_double_def)
    with acc le_imp gt_imp small show ?thesis
      by (cases "7 * n \<le> 10 * m") auto
  next
    case False
    define s where "s = bit_length N - 53"
    define S where "S = (2::nat) ^ s"
    define q where "q = N div S"
    from False have b53: "53 < bit_length N" by simp
    note rc = round_to_double_cases [OF b53, folded s_def]
    have R: "round_to_double N = q * S \<or> (round_to_double N = (q + 1) * S \<and> N mod S \<noteq> 0)"
      using rc [THEN conjunct1] unfolding S_def q_def by blast
    have "(2::nat) ^ (s + 52) = S * P"
      by (simp only: S_def P_def power_add)
    with rc [THEN conjunct2] have big: "S * P \<le> N"
      by simp
    have Spos: "0 < S" by (simp add: S_def)
    have decomp: "N = q * S + N mod S"
      by (simp add: q_def)
    have rem: "N mod S < S"
      using Spos by simp
    have "N \<le> n * P"
      by (simp add: N_def P_def SEVEN_TENTHS_def)
    with big have "S * P \<le> n * P" by (rule le_trans)
    moreover have "0 < P" by (simp add: P_def)
    ultimately have Sn: "S \<le> n" by simp
    have pw: "(2::nat) ^ s \<le> 2 ^ 48"
      using Sn assms unfolding S_def by (rule le_trans)
    have s48: "s \<le> 48"
    proof (rule ccontr)
      assume "\<not> s \<le> 48"
      then have "49 \<le> s" by simp
      then have "(2::nat) ^ 49 \<le> 2 ^ s"
        by (rule power_increasing) simp
      also have "\<dots> \<le> 2 ^ 48" by (rule pw)
      finally show False by simp
    qed
    have "(2::nat) ^ (52 - s + s) = 2 ^ (52 - s) * 2 ^ s"
      by (rule power_add)
    moreover have "52 - s + s = 52"
      using s48 by simp
    ultimately have "P = 2 ^ (52 - s) * S"
      by (simp only: P_def S_def)
    then have Mt: "M = (m * 2 ^ (52 - s)) * S"
      by (simp add: M_def)
    define t where "t = m * 2 ^ (52 - s)"
    have MtS: "M = t * S"
      using Mt by (simp only: t_def)
    show ?thesis
    proof (cases "7 * n \<le> 10 * m")
      case True
      from le_imp [OF True] have NM: "N \<le> M" .
      have "round_to_double N \<le> M"
        using R
      proof
        assume "round_to_double N = q * S"
        with decomp NM show ?thesis by linarith
      next
        assume A: "round_to_double N = (q + 1) * S \<and> N mod S \<noteq> 0"
        then have "0 < N mod S" by simp
        with decomp NM MtS have "q * S < t * S"
          by linarith
        then have "q < t" by simp
        then have "q + 1 \<le> t" by simp
        then have "(q + 1) * S \<le> t * S"
          by (rule mult_le_mono1)
        with A MtS show ?thesis by simp
      qed
      with acc True show ?thesis by simp
    next
      case False
      from gt_imp [OF False] have "10 * M + P \<le> 10 * N + 2 * n" .
      moreover have "N < round_to_double N + S"
        using R decomp rem by auto
      ultimately have "M < round_to_double N"
        using small Sn by linarith
      with acc False show ?thesis by simp
    qed
  qed
qed


text \<open>
  C1. \<open>process\<close> raises what retrieval raises. When retrieval returns, \<open>process\<close>
  returns a result, and with \<open>answer\<close> the text of the first \<open>chat\<close> call and \<open>revised\<close>
  the text of the second: the output is \<open>revised\<close> if the word count of \<open>revised\<close> is at
  least seven tenths of the word count of \<open>answer\<close>, and is \<open>answer\<close> itself otherwise; so
  the recorded final word count, which is that of the output, is at least seven tenths of
  the recorded initial word count, which is that of \<open>answer\<close>. The draft is taken to have at
  most \<open>2^48\<close> words, which holds for every string that fits in memory; beyond that the
  rounding of the double product no longer agrees with the exact comparison.
\<close>

theorem process_keeps_seventy_percent:
  "(\<forall>e w1. search fo query TOP_K (vector_store self) w = (Inl e, w1) \<longrightarrow>
       fst (process fo query self w) = Inl e) \<and>
   (\<forall>retrieved w1 answer w2 revised w3.
       search fo query TOP_K (vector_store self) w = (Inr retrieved, w1) \<and>
       chat w1 = (answer, w2) \<and> chat w2 = (revised, w3) \<and>
       length (py_split answer) \<le> 2 ^ 48 \<longrightarrow>
       (\<exists>r. fst (process fo query self w) = Inr r \<and>
            r_output r = (if 7 * length (py_split answer) \<le> 10 * length (py_split revised)
                          then revised else answer) \<and>
            initial_answer_words r = length (py_split answer) \<and>
            final_answer_words r = length (py_split (r_output r)) \<and>
            7 * initial_answer_words r \<le> 10 * final_answer_words r \<and>
            responses (fst (snd (process fo query self w))) = responses self @ [r])) \<and>
   (\<forall>retrieved w1. search fo query TOP_K (vector_store self) w = (Inr retrieved, w1) \<longrightarrow>
       (\<exists>r. fst (process fo query self w) = Inr r))"
proof (intro conjI allI impI)
  fix retrieved w1
  assume "search fo query TOP_K (vector_store self) w = (Inr retrieved, w1)"
  then show "\<exists>r. fst (process fo query self w) = Inr r"
    by (cases "chat w1"; cases "chat (snd (chat w1))") (simp add: process_def Let_def)
next
  fix e w1
  assume "search fo query TOP_K (vector_store self) w = (Inl e, w1)"
  then show "fst (process fo query self w) = Inl e"
    by (simp add: process_def)
next
  fix retrieved w1 answer w2 revised w3
  assume a: "search fo query TOP_K (vector_store self) w = (Inr retrieved, w1) \<and>
       chat w1 = (answer, w2) \<and> chat w2 = (revised, w3) \<and>
       length (py_split answer) \<le> 2 ^ 48"
  then have acc: "revision_accepted (length (py_split revised)) (length (py_split answer)) =
      (7 * length (py_split answer) \<le> 10 * length (py_split revised))"
    by (intro revision_accepted_iff) simp
  obtain r where r: "fst (process fo query self w) = Inr r"
    and rest: "r_output r = (if 7 * length (py_split answer) \<le> 10 * length (py_split revised)
                          then revised else answer)"
      "initial_answer_words r = length (py_split answer)"
      "final_answer_words r = length (py_split (r_output r))"
      "responses (fst (snd (process fo query self w))) = responses self @ [r]"
    using a by (simp add: process_def Let_def acc)
  from rest have "7 * initial_answer_words r \<le> 10 * final_answer_words r"
    by simp
  with r rest show "\<exists>r. fst (process fo query self w) = Inr r \<and>
            r_output r = (if 7 * length (py_split answer) \<le> 10 * length (py_split revised)
                          then revised else answer) \<and>
            initial_answer_words r = length (py_split answer) \<and>
            final_answer_words r = length (py_split (r_output r)) \<and>
            7 * initial_answer_words r \<le> 10 * final_answer_words r \<and>
            responses (fst (snd (process fo query self w))) = responses self @ [r]"
    by blast
qed

theorem process_keeps_seventy_percent_witness:
  "map_sum id r_output (fst (process unit_ops ''q'' one_chunk_pipeline shortening)) =
     Inr ''a b c d e f g h i j'' \<and>
   map_sum id r_output (fst (process unit_ops ''q'' one_chunk_pipeline revising)) =
     Inr ''t u v w x y z'' \<and>
   map_sum id final_answer_words (fst (process unit_ops ''q'' one_chunk_pipeline revising)) = Inr 7 \<and>
   length (py_split ''a b c d e f g h i j'') = 10 \<and> length (py_split ''a b c d'') = 4 \<and>
   length (py_split ''t u v w x y z'') = 7"
proof -
  have wc: "length (py_split ''a b c d e f g h i j'') = 10" "length (py_split ''a b c d'') = 4"
    "length (py_split ''t u v w x y z'') = 7"
    by (simp_all add: py_split_def isspace_def)
  have bound: "length (py_split ''a b c d e f g h i j'') \<le> 2 ^ 48"
    unfolding wc by simp
  let ?s = "search unit_ops ''q'' TOP_K (vector_store one_chunk_pipeline) shortening"
  have ev: "\<exists>retrieved. fst ?s = Inr retrieved"
    "fst (chat (snd ?s)) = ''a b c d e f g h i j''"
    "fst (chat (snd (chat (snd ?s)))) = ''a b c d''"
    by (simp_all add: search_def embed_def chat_def upt_5 post_embed_def post_chat_def
        shortening_def TOP_K_def one_chunk_pipeline_def unit_ops_def IndexFlatIP_search_def
        ranked_def one_chunk_def py_index_def with_score_def numeral_eq_Suc)
  from ev(1) obtain retrieved where s: "?s = (Inr retrieved, snd ?s)"
    by (cases ?s) auto
  have c1: "chat (snd ?s) = (''a b c d e f g h i j'', snd (chat (snd ?s)))"
    using ev(2) by (cases "chat (snd ?s)") simp
  have c2: "chat (snd (chat (snd ?s))) = (''a b c d'', snd (chat (snd (chat (snd ?s)))))"
    using ev(3) by (cases "chat (snd (chat (snd ?s)))") simp
  from process_keeps_seventy_percent [THEN conjunct2, THEN conjunct1, rule_format,
      OF conjI [OF s conjI [OF c1 conjI [OF c2 bound]]]]
  have kept: "map_sum id r_output (fst (process unit_ops ''q'' one_chunk_pipeline shortening)) =
     Inr ''a b c d e f g h i j''"
    unfolding wc by auto
  let ?t = "search unit_ops ''q'' TOP_K (vector_store one_chunk_pipeline) revising"
  have ev': "\<exists>retrieved. fst ?t = Inr retrieved"
    "fst (chat (snd ?t)) = ''a b c d e f g h i j''"
    "fst (chat (snd (chat (snd ?t)))) = ''t u v w x y z''"
    by (simp_all add: search_def embed_def chat_def upt_5 post_embed_def post_chat_def
        revising_def TOP_K_def one_chunk_pipeline_def unit_ops_def IndexFlatIP_search_def
        ranked_def one_chunk_def py_index_def with_score_def numeral_eq_Suc)
  from ev'(1) obtain retrieved' where t: "?t = (Inr retrieved', snd ?t)"
    by (cases ?t) auto
  have d1: "chat (snd ?t) = (''a b c d e f g h i j'', snd (chat (snd ?t)))"
    using ev'(2) by (cases "chat (snd ?t)") simp
  have d2: "chat (snd (chat (snd ?t))) = (''t u v w x y z'', snd (chat (snd (chat (snd ?t)))))"
    using ev'(3) by (cases "chat (snd (chat (snd ?t)))") simp
  from process_keeps_seventy_percent [THEN conjunct2, THEN conjunct1, rule_format,
      OF conjI [OF t conjI [OF d1 conjI [OF d2 bound]]]]
  have taken: "map_sum id r_output (fst (process unit_ops ''q'' one_chunk_pipeline revising)) =
     Inr ''t u v w x y z'' \<and>
     map_sum id final_answer_words (fst (process unit_ops ''q'' one_chunk_pipeline revising)) = Inr 7"
    unfolding wc by (auto simp: wc)
  from kept taken wc show ?thesis
    by simp
qed
section \<open>The judge\<close>

lemma chat_judge_says: "fst (chat (judge_says s)) = s"
  by (simp add: chat_def upt_5 post_chat_def judge_says_def)

lemma dict_get_set: "dict_get (dict_set d k v) k' x = (if k' = k then v else dict_get d k' x)"
  by (simp add: dict_get_def dict_set_def update_conv')

lemma dict_get_delete: "dict_get (AList.delete k d) k' x = (if k' = k then x else dict_get d k' x)"
  by (simp add: dict_get_def delete_conv')

lemma map_of_dict_set: "map_of (dict_set d k v) k' = (if k' = k then Some v else map_of d k')"
  by (simp add: dict_set_def update_conv')

lemma relabel_entries:
  assumes "key_A \<noteq> key_B"
    and "key_A \<notin> {''response_b'', ''preferred'', ''winner''}"
    and "key_B \<notin> {''preferred'', ''winner''}"
  shows "entry ''winner'' (relabel key_A key_B for_A for_B d) =
           map_sum id (\<lambda>win. Some (PStr win))
             (winner_of for_A for_B (dict_get d ''preferred'' (PStr [])))"
    and "entry key_A (relabel key_A key_B for_A for_B d) =
           map_sum id (\<lambda>win. Some (dict_get d ''response_a'' (PDict [])))
             (winner_of for_A for_B (dict_get d ''preferred'' (PStr [])))"
    and "entry key_B (relabel key_A key_B for_A for_B d) =
           map_sum id (\<lambda>win. Some (dict_get d ''response_b'' (PDict [])))
             (winner_of for_A for_B (dict_get d ''preferred'' (PStr [])))"
    and "entry ''reasoning'' (relabel key_A key_B for_A for_B d) =
           map_sum id (\<lambda>win. if ''reasoning'' \<in> {key_A, key_B} then
                  Some (dict_get d (if key_B = ''reasoning'' then ''response_b'' else ''response_a'') (PDict []))
                else map_of d ''reasoning'')
             (winner_of for_A for_B (dict_get d ''preferred'' (PStr [])))"
  using assms
  by (auto simp: relabel_def dict_pop_def dict_get_set dict_get_delete Let_def entry_def
      map_of_dict_set split: sum.splits)

lemma winner_of_swap:
  "winner_of ''rag'' ''normal'' (complement p) = winner_of ''normal'' ''rag'' p"
  by (cases p) (auto simp: winner_of_def complement_def)

lemmas entry_relabel_normal =
  relabel_entries [of "''normal_scores''" "''rag_scores''" "''normal''" "''rag''", simplified]

lemmas entry_relabel_rag =
  relabel_entries [of "''rag_scores''" "''normal_scores''" "''rag''" "''normal''", simplified]

lemma winner_of_range: "winner_of a b p = Inr win \<Longrightarrow> win \<in> {a, b, ''tie''}"
  by (cases p) (auto simp: winner_of_def split: if_splits)

lemma entry_evaluate:
  "entry k (fst (evaluate jl a self w)) = entry k (verdict a (judge_parse jl (fst (chat w))))"
  by (cases "chat w") (simp add: evaluate_def entry_def split: sum.splits)

lemma default_verdict_entries:
  "entry ''winner'' (Inr default_verdict) = Inr (Some (PStr ''tie''))"
  "entry ''normal_scores'' (Inr default_verdict) = Inr (Some (PDict neutral_scores))"
  "entry ''rag_scores'' (Inr default_verdict) = Inr (Some (PDict neutral_scores))"
  "entry ''reasoning'' (Inr default_verdict) = Inr (Some (PStr ''Parse failed''))"
  by (simp_all add: entry_def default_verdict_def)

lemma verdict_swapped:
  assumes "swapped d d'"
  shows "entry ''winner'' (verdict (\<not> a) (Some d')) = entry ''winner'' (verdict a (Some d))"
    and "entry ''normal_scores'' (verdict (\<not> a) (Some d')) = entry ''normal_scores'' (verdict a (Some d))"
    and "entry ''rag_scores'' (verdict (\<not> a) (Some d')) = entry ''rag_scores'' (verdict a (Some d))"
proof -
  from assms have pref: "dict_get d' ''preferred'' (PStr []) = complement (dict_get d ''preferred'' (PStr []))"
    and ra: "dict_get d' ''response_a'' (PDict []) = dict_get d ''response_b'' (PDict [])"
    and rb: "dict_get d' ''response_b'' (PDict []) = dict_get d ''response_a'' (PDict [])"
    and emp: "(d' = []) = (d = [])"
    by (simp_all add: swapped_def dict_get_def)
  have rev_swap: "winner_of ''normal'' ''rag'' (complement p) = winner_of ''rag'' ''normal'' p" for p
    by (cases p) (auto simp: winner_of_def complement_def)
  show "entry ''winner'' (verdict (\<not> a) (Some d')) = entry ''winner'' (verdict a (Some d))"
    by (cases a) (simp_all add: verdict_def emp entry_relabel_normal entry_relabel_rag pref ra rb
        winner_of_swap rev_swap)
  show "entry ''normal_scores'' (verdict (\<not> a) (Some d')) = entry ''normal_scores'' (verdict a (Some d))"
    by (cases a) (simp_all add: verdict_def emp entry_relabel_normal entry_relabel_rag pref ra rb
        winner_of_swap rev_swap)
  show "entry ''rag_scores'' (verdict (\<not> a) (Some d')) = entry ''rag_scores'' (verdict a (Some d))"
    by (cases a) (simp_all add: verdict_def emp entry_relabel_normal entry_relabel_rag pref ra rb
        winner_of_swap rev_swap)
qed


lemma digit_after_seps_range: "digit_after_seps s = Some d \<Longrightarrow> 0 \<le> d \<and> d \<le> 9"
  by (auto simp: digit_after_seps_def is_digit_def digit_value_def Let_def
      split: list.splits if_splits)

lemma search_dim_range: "search_dim name s = Some d \<Longrightarrow> 0 \<le> d \<and> d \<le> 9"
proof (induction s)
  case Nil
  then show ?case by simp
next
  case (Cons c cs)
  then show ?case
    by (auto split: option.splits dest: digit_after_seps_range)
qed

lemma has_all_dims_section: "has_all_dims (Some (PDict (section_of s)))"
  using search_dim_range [of _ s]
  by (auto simp: has_all_dims_def section_of_def DIMS_def split: option.splits)

lemma has_all_dims_neutral: "has_all_dims (Some (PDict neutral_scores))"
  by (simp add: has_all_dims_def neutral_scores_def DIMS_def)

lemma section_of_unparseable:
  "unparseable json_loads s \<Longrightarrow> section_of s = neutral_scores"
  by (simp add: unparseable_def section_of_def neutral_scores_def DIMS_def)


text \<open>
  C5, as the code has it. When the judge's response is neither decoded by \<open>json.loads\<close>
  nor matched by a dimension pattern or a preference pattern, \<open>evaluate\<close> raises nothing
  and returns a verdict in which all six scores of both pipelines are 3 and the winner is
  \<open>tie\<close>. The scores come from the fallback of \<open>_parse\<close>, which gives 3 to a dimension
  without a match and never fails, so the rationale of the verdict is \<open>Extracted\<close>.
\<close>

theorem unparseable_response_neutral_verdict:
  assumes "unparseable json_loads (fst (chat w))"
  shows "entry ''normal_scores'' (fst (evaluate json_loads a_is_normal self w)) =
           Inr (Some (PDict neutral_scores)) \<and>
         entry ''rag_scores'' (fst (evaluate json_loads a_is_normal self w)) =
           Inr (Some (PDict neutral_scores)) \<and>
         entry ''winner'' (fst (evaluate json_loads a_is_normal self w)) = Inr (Some (PStr ''tie'')) \<and>
         entry ''reasoning'' (fst (evaluate json_loads a_is_normal self w)) =
           Inr (Some (PStr ''Extracted''))"
proof -
  let ?s = "fst (chat w)"
  have ex: "extracted ?s =
     [(''response_a'', PDict neutral_scores), (''response_b'', PDict neutral_scores),
      (''preferred'', PStr ''TIE''), (''reasoning'', PStr ''Extracted'')]"
    using assms section_of_unparseable [OF assms] by (simp add: extracted_def unparseable_def)
  have p: "judge_parse json_loads ?s = Some (extracted ?s)"
    using assms by (simp add: judge_parse_def unparseable_def)
  have tie: "winner_of x y (PStr ''TIE'') = Inr ''tie''" for x y
    by (simp add: winner_of_def)
  show ?thesis
    unfolding entry_evaluate p
    by (cases a_is_normal)
       (simp_all add: verdict_def ex entry_relabel_normal entry_relabel_rag dict_get_def tie)
qed

theorem unparseable_response_neutral_verdict_witness:
  "unparseable no_json (fst (chat (judge_says ''no verdict''))) \<and>
   entry ''normal_scores'' (fst (evaluate no_json True new_judge (judge_says ''no verdict''))) =
     Inr (Some (PDict neutral_scores)) \<and>
   entry ''winner'' (fst (evaluate no_json True new_judge (judge_says ''no verdict''))) =
     Inr (Some (PStr ''tie'')) \<and>
   entry ''reasoning'' (fst (evaluate no_json True new_judge (judge_says ''no verdict''))) =
     Inr (Some (PStr ''Extracted''))"
proof -
  have h: "unparseable no_json (fst (chat (judge_says ''no verdict'')))"
    unfolding chat_judge_says by code_simp
  from unparseable_response_neutral_verdict [OF h, of True new_judge] h show ?thesis
    by simp
qed

text \<open>
  The rationale \<open>Parse failed\<close> belongs to the default verdict, which \<open>evaluate\<close> builds
  only for falsy scores. A response without braces, dimension or preference, such as
  \<open>no verdict\<close>, gets the rationale \<open>Extracted\<close>.
\<close>

theorem parse_failed_rationale_counterexample:
  "unparseable no_json ''no verdict'' \<and>
   fst (chat (judge_says ''no verdict'')) = ''no verdict'' \<and>
   entry ''reasoning'' (fst (evaluate no_json True new_judge (judge_says ''no verdict''))) =
     Inr (Some (PStr ''Extracted'')) \<and>
   entry ''reasoning'' (fst (evaluate no_json True new_judge (judge_says ''no verdict''))) \<noteq>
     Inr (Some (PStr ''Parse failed''))"
  by code_simp

lemma fst_evaluate:
  "fst (evaluate json_loads a_is_normal self w) =
     verdict a_is_normal (judge_parse json_loads (fst (chat w)))"
  by (cases "chat w") (simp add: evaluate_def split: sum.splits)

lemma winner_of_unhashable:
  "unhashable p \<Longrightarrow> winner_of a b p = Inl TypeError"
  "\<not> unhashable p \<Longrightarrow> \<exists>win. winner_of a b p = Inr win \<and> win \<in> {a, b, ''tie''}"
  by (cases p; simp add: winner_of_def unhashable_def)+

lemma relabel_raises:
  assumes "unhashable (dict_get d ''preferred'' (PStr []))"
    and "key_A \<noteq> key_B"
    and "key_A \<notin> {''response_b'', ''preferred'', ''winner''}"
    and "key_B \<notin> {''preferred'', ''winner''}"
  shows "relabel key_A key_B for_A for_B d = Inl TypeError"
  using relabel_entries(1) [OF assms(2-4), of for_A for_B d] winner_of_unhashable(1) [OF assms(1)]
  by (cases "relabel key_A key_B for_A for_B d") (simp_all add: entry_def)

lemma relabel_returns:
  assumes "\<not> unhashable (dict_get d ''preferred'' (PStr []))"
    and "key_A \<noteq> key_B"
    and "key_A \<notin> {''response_b'', ''preferred'', ''winner''}"
    and "key_B \<notin> {''preferred'', ''winner''}"
  shows "\<exists>v win. relabel key_A key_B for_A for_B d = Inr v \<and>
           winner_of for_A for_B (dict_get d ''preferred'' (PStr [])) = Inr win \<and>
           win \<in> {for_A, for_B, ''tie''} \<and>
           map_of v ''winner'' = Some (PStr win) \<and>
           map_of v key_A = Some (dict_get d ''response_a'' (PDict [])) \<and>
           map_of v key_B = Some (dict_get d ''response_b'' (PDict []))"
proof -
  from winner_of_unhashable(2) [OF assms(1), of for_A for_B] obtain win where
    w: "winner_of for_A for_B (dict_get d ''preferred'' (PStr [])) = Inr win"
      "win \<in> {for_A, for_B, ''tie''}"
    by blast
  from relabel_entries [OF assms(2-4), of for_A for_B d] w(1)
  have e: "entry ''winner'' (relabel key_A key_B for_A for_B d) = Inr (Some (PStr win))"
    "entry key_A (relabel key_A key_B for_A for_B d) = Inr (Some (dict_get d ''response_a'' (PDict [])))"
    "entry key_B (relabel key_A key_B for_A for_B d) = Inr (Some (dict_get d ''response_b'' (PDict [])))"
    by simp_all
  then obtain v where v: "relabel key_A key_B for_A for_B d = Inr v"
    by (cases "relabel key_A key_B for_A for_B d") (simp_all add: entry_def)
  with e w show ?thesis
    by (simp add: entry_def)
qed

lemma section_of_entries:
  "list_all (\<lambda>name. map_of (section_of s) name =
      Some (PInt (case search_dim name s of None \<Rightarrow> 3 | Some n \<Rightarrow> n))) DIMS"
  by (simp add: section_of_def DIMS_def)

text \<open>
  C6, as the code has it. Every verdict that \<open>evaluate\<close> returns has the entries
  \<open>normal_scores\<close>, \<open>rag_scores\<close> and \<open>winner\<close>. What the score entries are depends on what
  \<open>json.loads\<close> decoded from the response. If it decoded nothing, \<open>evaluate\<close> returns,
  and both score entries are the section of the fallback: for each of the six dimensions
  the digit that the dimension's pattern captured, and 3 if the pattern does not match. If
  it decoded the empty object, \<open>evaluate\<close> returns, and both score entries are the
  default, 3 for each dimension. If it decoded a non-empty object, \<open>evaluate\<close> raises
  \<open>TypeError\<close> when the object's \<open>preferred\<close> is a list or an object; otherwise it
  returns, and the score entry of a pipeline is what the object holds under the label
  given to that pipeline, \<open>response_a\<close> or \<open>response_b\<close>, and the empty dictionary if the
  object has no such key.
\<close>

theorem verdict_score_entries:
  assumes "fst (chat w) = s" and "fst (evaluate json_loads a_is_normal self w) = R"
  shows "(parse_json json_loads s = None \<longrightarrow>
            entry ''normal_scores'' R = Inr (Some (PDict (section_of s))) \<and>
            entry ''rag_scores'' R = Inr (Some (PDict (section_of s))) \<and>
            list_all (\<lambda>name. map_of (section_of s) name =
               Some (PInt (case search_dim name s of None \<Rightarrow> 3 | Some n \<Rightarrow> n))) DIMS \<and>
            has_all_dims (Some (PDict (section_of s)))) \<and>
         (parse_json json_loads s = Some [] \<longrightarrow>
            entry ''normal_scores'' R = Inr (Some (PDict neutral_scores)) \<and>
            entry ''rag_scores'' R = Inr (Some (PDict neutral_scores)) \<and>
            has_all_dims (Some (PDict neutral_scores))) \<and>
         (\<forall>d. parse_json json_loads s = Some d \<and> d \<noteq> [] \<longrightarrow>
            (if unhashable (dict_get d ''preferred'' (PStr [])) then R = Inl TypeError
             else entry ''normal_scores'' R =
                    Inr (Some (dict_get d (if a_is_normal then ''response_a'' else ''response_b'')
                                 (PDict []))) \<and>
                  entry ''rag_scores'' R =
                    Inr (Some (dict_get d (if a_is_normal then ''response_b'' else ''response_a'')
                                 (PDict []))))) \<and>
         (\<forall>v. R = Inr v \<longrightarrow>
            (\<exists>ns rs win. map_of v ''normal_scores'' = Some ns \<and> map_of v ''rag_scores'' = Some rs \<and>
               map_of v ''winner'' = Some (PStr win) \<and> win \<in> {''normal'', ''rag'', ''tie''}))"
proof -
  have R: "R = verdict a_is_normal (judge_parse json_loads s)"
    using assms fst_evaluate [of json_loads a_is_normal self w] by simp
  have none: "entry ''normal_scores'' R = Inr (Some (PDict (section_of s))) \<and>
      entry ''rag_scores'' R = Inr (Some (PDict (section_of s)))"
    if "parse_json json_loads s = None"
  proof -
    from that have p: "judge_parse json_loads s = Some (extracted s)"
      by (simp add: judge_parse_def)
    have ra: "dict_get (extracted s) ''response_a'' (PDict []) = PDict (section_of s)"
      and rb: "dict_get (extracted s) ''response_b'' (PDict []) = PDict (section_of s)"
      and ne: "extracted s \<noteq> []"
      and h: "\<not> unhashable (dict_get (extracted s) ''preferred'' (PStr []))"
      by (simp_all add: extracted_def dict_get_def unhashable_def)
    show ?thesis
    proof (cases a_is_normal)
      case True
      from relabel_returns [OF h, of "''normal_scores''" "''rag_scores''" "''normal''" "''rag''"]
      show ?thesis
        using True by (auto simp: R p verdict_def ne entry_def ra rb)
    next
      case False
      from relabel_returns [OF h, of "''rag_scores''" "''normal_scores''" "''rag''" "''normal''"]
      show ?thesis
        using False by (auto simp: R p verdict_def ne entry_def ra rb)
    qed
  qed
  have empty: "entry ''normal_scores'' R = Inr (Some (PDict neutral_scores)) \<and>
      entry ''rag_scores'' R = Inr (Some (PDict neutral_scores))"
    if "parse_json json_loads s = Some []"
    using that by (simp add: R judge_parse_def verdict_def default_verdict_entries)
  have decoded: "if unhashable (dict_get d ''preferred'' (PStr [])) then R = Inl TypeError
       else entry ''normal_scores'' R =
              Inr (Some (dict_get d (if a_is_normal then ''response_a'' else ''response_b'')
                           (PDict []))) \<and>
            entry ''rag_scores'' R =
              Inr (Some (dict_get d (if a_is_normal then ''response_b'' else ''response_a'')
                           (PDict [])))"
    if "parse_json json_loads s = Some d \<and> d \<noteq> []" for d
  proof -
    from that have p: "judge_parse json_loads s = Some d" and ne: "d \<noteq> []"
      by (simp_all add: judge_parse_def)
    show ?thesis
    proof (cases "unhashable (dict_get d ''preferred'' (PStr []))")
      case True
      from relabel_raises [OF True, of "''normal_scores''" "''rag_scores''" "''normal''" "''rag''"]
        relabel_raises [OF True, of "''rag_scores''" "''normal_scores''" "''rag''" "''normal''"]
      show ?thesis
        using True by (simp add: R p verdict_def ne)
    next
      case False
      from relabel_returns [OF False, of "''normal_scores''" "''rag_scores''" "''normal''" "''rag''"]
        relabel_returns [OF False, of "''rag_scores''" "''normal_scores''" "''rag''" "''normal''"]
      show ?thesis
        using False by (cases a_is_normal) (auto simp: R p verdict_def ne entry_def)
    qed
  qed
  have shape: "\<exists>ns rs win. map_of v ''normal_scores'' = Some ns \<and> map_of v ''rag_scores'' = Some rs \<and>
               map_of v ''winner'' = Some (PStr win) \<and> win \<in> {''normal'', ''rag'', ''tie''}"
    if v: "R = Inr v" for v
  proof -
    obtain d where p: "judge_parse json_loads s = Some d"
      by (cases "parse_json json_loads s") (simp_all add: judge_parse_def)
    show ?thesis
    proof (cases "d = []")
      case True
      with v p have "v = default_verdict" by (simp add: R verdict_def)
      then show ?thesis by (simp add: default_verdict_def)
    next
      case False
      have h: "\<not> unhashable (dict_get d ''preferred'' (PStr []))"
      proof
        assume u: "unhashable (dict_get d ''preferred'' (PStr []))"
        from relabel_raises [OF u, of "''normal_scores''" "''rag_scores''" "''normal''" "''rag''"]
          relabel_raises [OF u, of "''rag_scores''" "''normal_scores''" "''rag''" "''normal''"]
        have "R = Inl TypeError"
          using False by (simp add: R p verdict_def)
        with v show False by simp
      qed
      from relabel_returns [OF h, of "''normal_scores''" "''rag_scores''" "''normal''" "''rag''"]
        relabel_returns [OF h, of "''rag_scores''" "''normal_scores''" "''rag''" "''normal''"]
      show ?thesis
        using False v by (cases a_is_normal) (auto simp: R p verdict_def)
    qed
  qed
  from none empty decoded shape section_of_entries [of s] has_all_dims_section [of s]
    has_all_dims_neutral
  show ?thesis by blast
qed

theorem verdict_score_entries_witness:
  \<open>parse_json no_json ''Accuracy: 4'' = None \<and>
   entry ''normal_scores'' (fst (evaluate no_json True new_judge (judge_says ''Accuracy: 4''))) =
     Inr (Some (PDict (section_of ''Accuracy: 4''))) \<and>
   section_of ''Accuracy: 4'' =
     [(''accuracy'', PInt 4), (''completeness'', PInt 3), (''balance'', PInt 3),
      (''clarity'', PInt 3), (''calibration'', PInt 3), (''helpfulness'', PInt 3)] \<and>
   parse_json loads_scored ''{"response_a": {"accuracy": 5}, "preferred": "A"}'' =
     Some [(''response_a'', PDict [(''accuracy'', PInt 5)]), (''preferred'', PStr ''A'')] \<and>
   entry ''normal_scores'' (fst (evaluate loads_scored False new_judge
       (judge_says ''{"response_a": {"accuracy": 5}, "preferred": "A"}''))) = Inr (Some (PDict [])) \<and>
   entry ''rag_scores'' (fst (evaluate loads_scored False new_judge
       (judge_says ''{"response_a": {"accuracy": 5}, "preferred": "A"}''))) =
     Inr (Some (PDict [(''accuracy'', PInt 5)]))\<close>
proof -
  have p1: "parse_json no_json ''Accuracy: 4'' = None"
    by (simp add: parse_json_def no_json_def split: option.splits)
  have sec: "section_of ''Accuracy: 4'' =
     [(''accuracy'', PInt 4), (''completeness'', PInt 3), (''balance'', PInt 3),
      (''clarity'', PInt 3), (''calibration'', PInt 3), (''helpfulness'', PInt 3)]"
    by code_simp
  have p2: \<open>parse_json loads_scored ''{"response_a": {"accuracy": 5}, "preferred": "A"}'' =
     Some [(''response_a'', PDict [(''accuracy'', PInt 5)]), (''preferred'', PStr ''A'')]\<close>
    by code_simp
  have h: "\<not> unhashable (dict_get [(''response_a'', PDict [(''accuracy'', PInt 5)]),
      (''preferred'', PStr ''A'')] ''preferred'' (PStr []))"
    by (simp add: dict_get_def unhashable_def)
  have ne: "[(''response_a'', PDict [(''accuracy'', PInt 5)]), (''preferred'', PStr ''A'')] \<noteq> []"
    by simp
  note A = verdict_score_entries [where w = "judge_says ''Accuracy: 4''" and json_loads = no_json
      and a_is_normal = True and self = new_judge, OF chat_judge_says refl,
      THEN conjunct1, rule_format, OF p1]
  note B = verdict_score_entries [where json_loads = loads_scored
      and a_is_normal = False and self = new_judge, OF chat_judge_says refl,
      THEN conjunct2, THEN conjunct2, THEN conjunct1, rule_format, OF conjI [OF p2 ne]]
  from A B h p1 p2 sec show ?thesis
    by (simp add: dict_get_def)
qed

text \<open>
  The response \<open>{"x": 1}\<close> is valid JSON without scores: the verdict's \<open>normal_scores\<close> is
  the empty dictionary.
\<close>

theorem absent_scores_counterexample:
  \<open>fst (chat (judge_says ''{"x": 1}'')) = ''{"x": 1}'' \<and>
   parse_json loads_x ''{"x": 1}'' = Some [(''x'', PInt 1)] \<and>
   entry ''normal_scores'' (fst (evaluate loads_x True new_judge (judge_says ''{"x": 1}''))) =
     Inr (Some (PDict [])) \<and>
   \<not> has_all_dims (Some (PDict []))\<close>
  by code_simp

lemma winner_of_cases:
  "winner_of a b p \<in> {Inl TypeError, Inr a, Inr b, Inr ''tie''}"
  by (cases p) (auto simp: winner_of_def)

lemma entry_winner_verdict:
  assumes "d \<noteq> []"
  shows "entry ''winner'' (verdict a_is_normal (Some d)) =
           map_sum id (\<lambda>win. Some (PStr win))
             (if a_is_normal then winner_of ''normal'' ''rag'' (dict_get d ''preferred'' (PStr []))
              else winner_of ''rag'' ''normal'' (dict_get d ''preferred'' (PStr [])))"
  using assms by (simp add: verdict_def entry_relabel_normal entry_relabel_rag)

text \<open>
  C7. The winner in a verdict names a pipeline, never a label: when the judge prefers A,
  the winner is the pipeline that was given the label A, \<open>normal\<close> if that was the plain
  model and \<open>rag\<close> otherwise; when the judge prefers B, it is the pipeline that was given
  the label B; for any other preference that can be a dictionary key, and for an empty
  answer, it is \<open>tie\<close>; a preference that is a list or an object raises \<open>TypeError\<close>.
  Consequently the winner does not depend on the assignment: take a second run of
  \<open>evaluate\<close> with the opposite assignment, in which the judge's parsed answer is the
  relabelling of the first (what one says of A the other says of B, and the preference is
  complemented). Then both runs report the same winner, or raise the same error, and the
  same scores for the plain model and for the RAG pipeline.
\<close>

theorem winner_independent_of_labels:
  assumes "judge_parse json_loads (fst (chat w)) = Some d"
    and "judge_parse json_loads (fst (chat w')) = Some d'"
    and "swapped d d'"
  shows "(d \<noteq> [] \<and> dict_get d ''preferred'' (PStr []) = PStr ''A'' \<longrightarrow>
            entry ''winner'' (fst (evaluate json_loads a_is_normal self w)) =
              Inr (Some (PStr (if a_is_normal then ''normal'' else ''rag'')))) \<and>
         (d \<noteq> [] \<and> dict_get d ''preferred'' (PStr []) = PStr ''B'' \<longrightarrow>
            entry ''winner'' (fst (evaluate json_loads a_is_normal self w)) =
              Inr (Some (PStr (if a_is_normal then ''rag'' else ''normal'')))) \<and>
         (d \<noteq> [] \<and> unhashable (dict_get d ''preferred'' (PStr [])) \<longrightarrow>
            fst (evaluate json_loads a_is_normal self w) = Inl TypeError) \<and>
         (d = [] \<or> (\<not> unhashable (dict_get d ''preferred'' (PStr [])) \<and>
                     dict_get d ''preferred'' (PStr []) \<noteq> PStr ''A'' \<and>
                     dict_get d ''preferred'' (PStr []) \<noteq> PStr ''B'') \<longrightarrow>
            entry ''winner'' (fst (evaluate json_loads a_is_normal self w)) =
              Inr (Some (PStr ''tie''))) \<and>
         entry ''winner'' (fst (evaluate json_loads (\<not> a_is_normal) self' w')) =
           entry ''winner'' (fst (evaluate json_loads a_is_normal self w)) \<and>
         entry ''normal_scores'' (fst (evaluate json_loads (\<not> a_is_normal) self' w')) =
           entry ''normal_scores'' (fst (evaluate json_loads a_is_normal self w)) \<and>
         entry ''rag_scores'' (fst (evaluate json_loads (\<not> a_is_normal) self' w')) =
           entry ''rag_scores'' (fst (evaluate json_loads a_is_normal self w))"
proof -
  let ?p = "dict_get d ''preferred'' (PStr [])"
  let ?R = "fst (evaluate json_loads a_is_normal self w)"
  have R: "?R = verdict a_is_normal (Some d)"
    using fst_evaluate [of json_loads a_is_normal self w] assms(1) by simp
  have A: "entry ''winner'' ?R = Inr (Some (PStr (if a_is_normal then ''normal'' else ''rag'')))"
    if "d \<noteq> [] \<and> ?p = PStr ''A''"
    using that by (simp add: R entry_winner_verdict winner_of_def)
  have B: "entry ''winner'' ?R = Inr (Some (PStr (if a_is_normal then ''rag'' else ''normal'')))"
    if "d \<noteq> [] \<and> ?p = PStr ''B''"
    using that by (simp add: R entry_winner_verdict winner_of_def)
  have U: "?R = Inl TypeError" if "d \<noteq> [] \<and> unhashable ?p"
  proof -
    from that have u: "unhashable ?p" and ne: "d \<noteq> []" by simp_all
    from relabel_raises [OF u, of "''normal_scores''" "''rag_scores''" "''normal''" "''rag''"]
      relabel_raises [OF u, of "''rag_scores''" "''normal_scores''" "''rag''" "''normal''"]
    show ?thesis
      using ne by (simp add: R verdict_def)
  qed
  have T: "entry ''winner'' ?R = Inr (Some (PStr ''tie''))"
    if "d = [] \<or> (\<not> unhashable ?p \<and> ?p \<noteq> PStr ''A'' \<and> ?p \<noteq> PStr ''B'')"
  proof (cases "d = []")
    case True
    then show ?thesis by (simp add: R verdict_def default_verdict_entries)
  next
    case False
    with that have h: "\<not> unhashable ?p" "?p \<noteq> PStr ''A''" "?p \<noteq> PStr ''B''"
      by simp_all
    then have "winner_of x y ?p = Inr ''tie''" for x y
      by (cases ?p) (simp_all add: winner_of_def unhashable_def)
    with False show ?thesis
      by (simp add: R entry_winner_verdict)
  qed
  have S: "entry ''winner'' (fst (evaluate json_loads (\<not> a_is_normal) self' w')) = entry ''winner'' ?R \<and>
         entry ''normal_scores'' (fst (evaluate json_loads (\<not> a_is_normal) self' w')) =
           entry ''normal_scores'' ?R \<and>
         entry ''rag_scores'' (fst (evaluate json_loads (\<not> a_is_normal) self' w')) =
           entry ''rag_scores'' ?R"
    unfolding entry_evaluate assms(1,2) using verdict_swapped [OF assms(3)] by simp
  from A B U T S show ?thesis by blast
qed

theorem winner_independent_of_labels_witness:
  "judge_parse no_json (fst (chat (judge_says ''prefer A''))) = Some (extracted ''prefer A'') \<and>
   judge_parse no_json (fst (chat (judge_says ''prefer B''))) = Some (extracted ''prefer B'') \<and>
   swapped (extracted ''prefer A'') (extracted ''prefer B'') \<and>
   dict_get (extracted ''prefer A'') ''preferred'' (PStr []) = PStr ''A'' \<and>
   entry ''winner'' (fst (evaluate no_json True new_judge (judge_says ''prefer A''))) =
     Inr (Some (PStr ''normal'')) \<and>
   entry ''winner'' (fst (evaluate no_json False new_judge (judge_says ''prefer B''))) =
     Inr (Some (PStr ''normal'')) \<and>
   entry ''winner'' (fst (evaluate no_json False new_judge (judge_says ''prefer A''))) =
     Inr (Some (PStr ''rag'')) \<and>
   entry ''winner'' (fst (evaluate no_json True new_judge (judge_says ''prefer B''))) =
     Inr (Some (PStr ''rag''))"
proof -
  have p1: "judge_parse no_json (fst (chat (judge_says ''prefer A''))) = Some (extracted ''prefer A'')"
    and p2: "judge_parse no_json (fst (chat (judge_says ''prefer B''))) = Some (extracted ''prefer B'')"
    by (simp_all add: chat_judge_says judge_parse_def parse_json_def no_json_def split: option.splits)
  have sw: "swapped (extracted ''prefer A'') (extracted ''prefer B'')"
    by code_simp
  have pa: "extracted ''prefer A'' \<noteq> [] \<and>
      dict_get (extracted ''prefer A'') ''preferred'' (PStr []) = PStr ''A''"
    by code_simp
  note T = winner_independent_of_labels [OF p1 p2 sw, of True new_judge new_judge]
  note F = winner_independent_of_labels [OF p1 p2 sw, of False new_judge new_judge]
  from T [THEN conjunct1, rule_format, OF pa] F [THEN conjunct1, rule_format, OF pa]
    T [THEN conjunct2, THEN conjunct2, THEN conjunct2, THEN conjunct2, THEN conjunct1]
    F [THEN conjunct2, THEN conjunct2, THEN conjunct2, THEN conjunct2, THEN conjunct1]
    p1 p2 sw pa
  show ?thesis by simp
qed
end
